theory Spec2Isabelle
  imports Main "HOL-Library.Word"
begin

unbundle bit_operations_syntax

section \<open>sped: a streaming PNG decoder with RGB565 output\<close>

text \<open>
  A shallow embedding of \<^verbatim>\<open>sped.c\<close>.  Bytes are \<open>8 word\<close>, the downscale accumulator
  lanes and the RGB565 pixels are \<open>16 word\<close>, the 32-bit header fields are \<open>32 word\<close>.
  A buffer is the list of its bytes; a pointer into the PNG image is an offset into that
  list.  Signed \<^verbatim>\<open>int\<close> temporaries are \<open>int\<close>.
\<close>

type_synonym u8 = "8 word"
type_synonym u16 = "16 word"
type_synonym u32 = "32 word"

subsection \<open>Constants and byte helpers\<close>

definition png_sig :: "u8 list" where
  "png_sig = [137, 80, 78, 71, 13, 10, 26, 10]"

text \<open>The four-character chunk type tags compared with \<^verbatim>\<open>memcmp\<close>.\<close>

definition tag_IHDR :: "u8 list" where "tag_IHDR = [73, 72, 68, 82]"
definition tag_PLTE :: "u8 list" where "tag_PLTE = [80, 76, 84, 69]"
definition tag_tRNS :: "u8 list" where "tag_tRNS = [116, 82, 78, 83]"
definition tag_IDAT :: "u8 list" where "tag_IDAT = [73, 68, 65, 84]"
definition tag_IEND :: "u8 list" where "tag_IEND = [73, 69, 78, 68]"

text \<open>\<^verbatim>\<open>memcmp(p + off, t, n) == 0\<close> for a buffer that holds at least \<open>off + n\<close> bytes.\<close>

definition bytes_at :: "u8 list \<Rightarrow> nat \<Rightarrow> nat \<Rightarrow> u8 list" where
  "bytes_at p off n = take n (drop off p)"

text \<open>\<^verbatim>\<open>r32(p + off)\<close>: the 4-byte big-endian integer at offset \<open>off\<close>.\<close>

definition r32 :: "u8 list \<Rightarrow> nat \<Rightarrow> u32" where
  "r32 p off =
     push_bit 24 (ucast (p ! off)) OR push_bit 16 (ucast (p ! (off + 1))) OR
     push_bit 8 (ucast (p ! (off + 2))) OR ucast (p ! (off + 3))"

subsection \<open>Paeth predictor\<close>

definition paeth :: "u8 \<Rightarrow> u8 \<Rightarrow> u8 \<Rightarrow> u8" where
  "paeth a b c =
     (let p = uint a + uint b - uint c;
          pa = \<bar>p - uint a\<bar>;
          pb = \<bar>p - uint b\<bar>;
          pc = \<bar>p - uint c\<bar>
      in if pa \<le> pb \<and> pa \<le> pc then a
         else if pb \<le> pc then b
         else c)"

subsection \<open>Pixel extraction\<close>

text \<open>
  The palette \<^verbatim>\<open>uint8_t pal[256][3]\<close> is a function from the index to the RGB triple.
  \<^verbatim>\<open>get_pixel\<close> returns the three bytes it stores through \<^verbatim>\<open>r\<close>, \<^verbatim>\<open>g\<close>, \<^verbatim>\<open>b\<close>.
\<close>

type_synonym rgb = "u8 \<times> u8 \<times> u8"

definition get_pixel :: "u8 list \<Rightarrow> nat \<Rightarrow> u8 \<Rightarrow> nat \<Rightarrow> (nat \<Rightarrow> rgb) \<Rightarrow> rgb" where
  "get_pixel cur x ctype bpc pal =
     (if bpc = 1 then
        (if ctype = 0 then (cur ! x, cur ! x, cur ! x)
         else if ctype = 2 then (cur ! (x * 3), cur ! (x * 3 + 1), cur ! (x * 3 + 2))
         else if ctype = 3 then (let idx = cur ! x in pal (unat idx))
         else if ctype = 4 then (cur ! (x * 2), cur ! (x * 2), cur ! (x * 2))
         else if ctype = 6 then (cur ! (x * 4), cur ! (x * 4 + 1), cur ! (x * 4 + 2))
         else (0, 0, 0))
      else
        (if ctype = 0 then (cur ! (x * 2), cur ! (x * 2), cur ! (x * 2))
         else if ctype = 2 then (cur ! (x * 6), cur ! (x * 6 + 2), cur ! (x * 6 + 4))
         else if ctype = 4 then (cur ! (x * 4), cur ! (x * 4), cur ! (x * 4))
         else if ctype = 6 then (cur ! (x * 8), cur ! (x * 8 + 2), cur ! (x * 8 + 4))
         else (0, 0, 0)))"

text \<open>The RGB565 packing \<^verbatim>\<open>((r & 0xF8) << 8) | ((g & 0xFC) << 3) | (bl >> 3)\<close>.\<close>

definition pack565 :: "rgb \<Rightarrow> u16" where
  "pack565 px =
     (case px of (r, g, bl) \<Rightarrow>
        push_bit 8 (ucast r AND 0xF8) OR push_bit 3 (ucast g AND 0xFC) OR drop_bit 3 (ucast bl))"

subsection \<open>sped_info\<close>

record sped_info_t =
  width :: u32
  height :: u32

text \<open>The result is the return code and the \<^verbatim>\<open>info\<close> structure after the call.\<close>

definition sped_info :: "u8 list \<Rightarrow> sped_info_t \<Rightarrow> int \<times> sped_info_t" where
  "sped_info png info =
     (if length png < 33 \<or> bytes_at png 0 8 \<noteq> png_sig then (- 1, info)
      else if r32 png 8 \<noteq> 13 \<or> bytes_at png 12 4 \<noteq> tag_IHDR then (- 1, info)
      else (0, info\<lparr>width := r32 png 16, height := r32 png 20\<rparr>))"

subsection \<open>The inflate primitive\<close>

text \<open>
  Modelled from the spec: the DEFLATE decompressor (\<^verbatim>\<open>tinfl\<close> of miniz) is an external
  collaborator and not part of the sources.  Following section 4.3 of the specification it
  is a step function on an abstract decompressor state, which here also owns the contents
  of the 32 KiB dictionary (only the decompressor writes it).  One step takes the state,
  the current input slice \<^verbatim>\<open>in_ptr[0 .. in_remain)\<close>, the dictionary write offset and the
  "more input available" flag; it returns the status, the number of input bytes consumed,
  the bytes written at \<^verbatim>\<open>dict + dict_ofs\<close> and the next state.
\<close>

datatype tinfl_status = StFailed | StDone | StNeedsMoreInput | StHasMoreOutput

definition TINFL_LZ_DICT_SIZE :: nat where
  "TINFL_LZ_DICT_SIZE = 32768"

definition SPED_MAX_IDAT :: nat where
  "SPED_MAX_IDAT = 64"

text \<open>
  The environment of one call: the decompressor, whether the work buffers can be
  allocated, and the indeterminate initial contents of the palette array on the stack.
\<close>

record 'd env =
  tinfl_init :: 'd
  tinfl_decompress :: "'d \<Rightarrow> u8 list \<Rightarrow> nat \<Rightarrow> bool \<Rightarrow> tinfl_status \<times> nat \<times> u8 list \<times> 'd"
  alloc_ok :: bool
  pal_stack :: "nat \<Rightarrow> rgb"

subsection \<open>Chunk scan\<close>

record chunks =
  pal :: "nat \<Rightarrow> rgb"
  pal_a :: "nat \<Rightarrow> u8"
  idat :: "u8 list list"

definition copy_plte :: "u8 list \<Rightarrow> nat \<Rightarrow> nat \<Rightarrow> (nat \<Rightarrow> rgb) \<Rightarrow> (nat \<Rightarrow> rgb)" where
  "copy_plte png cp clen p =
     (let n = min (clen div 3) 256
      in fold (\<lambda>i q. q(i := (png ! (cp + 8 + i * 3), png ! (cp + 8 + i * 3 + 1),
                              png ! (cp + 8 + i * 3 + 2)))) [0..<n] p)"

definition copy_trns :: "u8 list \<Rightarrow> nat \<Rightarrow> nat \<Rightarrow> (nat \<Rightarrow> u8) \<Rightarrow> (nat \<Rightarrow> u8)" where
  "copy_trns png cp clen pa = fold (\<lambda>i q. q(i := png ! (cp + 8 + i))) [0..<min clen 256] pa"

text \<open>
  The chunk walk from offset \<open>cp\<close>.  \<^verbatim>\<open>cp + 12 + clen > end\<close> stops the walk, so the
  increment \<^verbatim>\<open>12 + clen\<close> is bounded by the length of the image.  An IDAT descriptor
  \<^verbatim>\<open>(cp + 8, clen)\<close> is the slice of the image it denotes.
\<close>

function scan_chunks :: "u8 list \<Rightarrow> u8 \<Rightarrow> nat \<Rightarrow> chunks \<Rightarrow> chunks" where
  "scan_chunks png ctype cp s =
     (if cp + 12 \<le> length png then
        (let clen = unat (r32 png cp) in
         if cp + 12 + clen > length png then s
         else if bytes_at png (cp + 4) 4 = tag_PLTE then
           scan_chunks png ctype (cp + 12 + clen) (s\<lparr>pal := copy_plte png cp clen (pal s)\<rparr>)
         else if bytes_at png (cp + 4) 4 = tag_tRNS then
           scan_chunks png ctype (cp + 12 + clen)
             (if ctype = 3 then s\<lparr>pal_a := copy_trns png cp clen (pal_a s)\<rparr> else s)
         else if bytes_at png (cp + 4) 4 = tag_IDAT then
           scan_chunks png ctype (cp + 12 + clen)
             (if length (idat s) < SPED_MAX_IDAT
              then s\<lparr>idat := idat s @ [bytes_at png (cp + 8) clen]\<rparr> else s)
         else if bytes_at png (cp + 4) 4 = tag_IEND then s
         else scan_chunks png ctype (cp + 12 + clen) s)
      else s)"
  by pat_completeness auto
termination
  by (relation "measure (\<lambda>(png, ctype, cp, s). length png - cp)") auto

declare scan_chunks.simps [simp del]

subsection \<open>Scanline reconstruction and row output\<close>

text \<open>The parameters fixed after header validation.\<close>

record image =
  img_w :: u32
  img_h :: u32
  img_ctype :: u8
  img_bpc :: nat
  img_bpp :: nat
  img_stride :: nat
  img_scale :: nat
  img_out_w :: nat
  img_pal :: "nat \<Rightarrow> rgb"

text \<open>One invocation \<^verbatim>\<open>cb(y, w, rgb565, user)\<close>, with the \<open>w\<close> pixels the pointer addresses.\<close>

record row_call =
  cb_y :: int
  cb_w :: int
  cb_px :: "u16 list"

record sl_state =
  cur :: "u8 list"
  prev :: "u8 list"
  acc :: "u16 list"
  sl_pos :: nat
  filter :: u8
  row :: nat
  out_row :: nat
  calls :: "row_call list"

text \<open>One iteration of the inverse filter loop, for index \<open>i\<close>.\<close>

definition unfilter_step :: "u8 \<Rightarrow> nat \<Rightarrow> u8 list \<Rightarrow> nat \<Rightarrow> u8 list \<Rightarrow> u8 list" where
  "unfilter_step f bpp pr i c =
     (let a = (if i \<ge> bpp then c ! (i - bpp) else 0);
          b = pr ! i;
          c_val = (if i \<ge> bpp then pr ! (i - bpp) else 0)
      in if f = 1 then c[i := c ! i + a]
         else if f = 2 then c[i := c ! i + b]
         else if f = 3 then c[i := c ! i + word_of_int ((uint a + uint b) div 2)]
         else if f = 4 then c[i := c ! i + paeth a b c_val]
         else c)"

definition unfilter :: "u8 \<Rightarrow> nat \<Rightarrow> nat \<Rightarrow> u8 list \<Rightarrow> u8 list \<Rightarrow> u8 list" where
  "unfilter f bpp stride pr c = fold (unfilter_step f bpp pr) [0..<stride] c"

text \<open>One iteration of the accumulation loop, for column \<open>x\<close>.\<close>

definition acc_step :: "image \<Rightarrow> u8 list \<Rightarrow> nat \<Rightarrow> u16 list \<Rightarrow> u16 list" where
  "acc_step im c x a =
     (case get_pixel c x (img_ctype im) (img_bpc im) (img_pal im) of (r, g, bl) \<Rightarrow>
        (let ox = x div img_scale im;
             a0 = a[ox * 3 + 0 := a ! (ox * 3 + 0) + ucast r];
             a1 = a0[ox * 3 + 1 := a0 ! (ox * 3 + 1) + ucast g]
         in a1[ox * 3 + 2 := a1 ! (ox * 3 + 2) + ucast bl]))"

definition accumulate :: "image \<Rightarrow> u8 list \<Rightarrow> u16 list \<Rightarrow> u16 list" where
  "accumulate im c a =
     (let limit = img_out_w im * img_scale im
      in fold (acc_step im c) [0..<min limit (unat (img_w im))] a)"

definition avg_pixel :: "nat \<Rightarrow> u16 list \<Rightarrow> nat \<Rightarrow> rgb" where
  "avg_pixel dv a ox =
     (word_of_nat (unat (a ! (ox * 3 + 0)) div dv),
      word_of_nat (unat (a ! (ox * 3 + 1)) div dv),
      word_of_nat (unat (a ! (ox * 3 + 2)) div dv))"

text \<open>
  A completed scanline: inverse filter, pixel conversion and callback, buffer swap.
  The row buffer \<^verbatim>\<open>out\<close> is written in full before each callback, so it is not state.
\<close>

definition process_row :: "image \<Rightarrow> sl_state \<Rightarrow> sl_state" where
  "process_row im s =
     (let c = unfilter (filter s) (img_bpp im) (img_stride im) (prev s) (cur s);
          s1 =
            (if img_scale im = 1 then
               s\<lparr>calls := calls s @
                   [\<lparr>cb_y = int (row s), cb_w = sint (img_w im),
                     cb_px = map (\<lambda>x. pack565 (get_pixel c x (img_ctype im) (img_bpc im) (img_pal im)))
                               [0..<unat (img_w im)]\<rparr>]\<rparr>
             else
               (let a = accumulate im c (acc s) in
                if row s mod img_scale im = img_scale im - 1 then
                  (let dv = img_scale im * img_scale im in
                   s\<lparr>calls := calls s @
                       [\<lparr>cb_y = int (out_row s), cb_w = int (img_out_w im),
                         cb_px = map (\<lambda>ox. pack565 (avg_pixel dv a ox)) [0..<img_out_w im]\<rparr>],
                     out_row := out_row s + 1,
                     acc := replicate (img_out_w im * 3) 0\<rparr>)
                else s\<lparr>acc := a\<rparr>))
      in s1\<lparr>cur := replicate (img_stride im) 0, prev := c, row := row s + 1, sl_pos := 0\<rparr>)"

text \<open>
  The body-copy branch of the inner loop: \<^verbatim>\<open>take = min(avail, need)\<close> bytes of the
  window \<open>dp\<close> are copied to \<^verbatim>\<open>cur + (sl_pos - 1)\<close> and \<^verbatim>\<open>sl_pos\<close> advances.
  \<^verbatim>\<open>need\<close> is never negative, since \<open>sl_pos\<close> stays within \<open>stride + 1\<close>.
\<close>

definition scan_take :: "image \<Rightarrow> u8 list \<Rightarrow> sl_state \<Rightarrow> nat" where
  "scan_take im dp s =
     (let need = img_stride im - (sl_pos s - 1)
      in if length dp < need then length dp else need)"

definition copy_in :: "image \<Rightarrow> u8 list \<Rightarrow> sl_state \<Rightarrow> sl_state" where
  "copy_in im dp s =
     (let tk = scan_take im dp s
      in s\<lparr>cur := take (sl_pos s - 1) (cur s) @ take tk dp @ drop (sl_pos s - 1 + tk) (cur s),
            sl_pos := sl_pos s + tk\<rparr>)"

text \<open>The test \<^verbatim>\<open>if (sl_pos > stride)\<close> after the copy, and the completed scanline.\<close>

definition complete_row :: "image \<Rightarrow> sl_state \<Rightarrow> sl_state" where
  "complete_row im s = (if sl_pos s > img_stride im then process_row im s else s)"

text \<open>
  The inner loop \<^verbatim>\<open>while (avail > 0 && row < (int)h)\<close> over the bytes \<open>dp\<close> the
  decompressor has just written.
\<close>

function feed :: "image \<Rightarrow> u8 list \<Rightarrow> sl_state \<Rightarrow> sl_state" where
  "feed im dp s =
     (if dp \<noteq> [] \<and> int (row s) < sint (img_h im) then
        (if sl_pos s = 0 then feed im (tl dp) (s\<lparr>filter := hd dp, sl_pos := 1\<rparr>)
         else feed im (drop (scan_take im dp s) dp) (complete_row im (copy_in im dp s)))
      else s)"
  by pat_completeness auto
termination
proof (relation "measures [\<lambda>(im, dp, s). length dp,
                           \<lambda>(im, dp, s). nat (sint (img_h im)) - row s]", goal_cases)
  case 1
  show ?case by simp
next
  case (2 im dp s)
  then show ?case by (cases dp) auto
next
  case (3 im dp s)
  then show ?case
    by (cases "scan_take im dp s = 0")
      (auto simp: process_row_def complete_row_def copy_in_def scan_take_def Let_def
        split: if_splits)
qed

declare feed.simps [simp del]

subsection \<open>The decode loop\<close>

record 'd feed_state =
  decomp :: 'd
  ci :: nat
  in_ptr :: "u8 list"
  dict_ofs :: nat

text \<open>
  One iteration of the body of the outer loop \<^verbatim>\<open>while (row < (int)h)\<close>, up to the
  tests of the status: the call of the decompressor, the inner loop over its output, and
  the advance to the next IDAT chunk.
\<close>

definition loop_body ::
  "'d env \<Rightarrow> image \<Rightarrow> u8 list list \<Rightarrow> 'd feed_state \<Rightarrow> sl_state \<Rightarrow>
     tinfl_status \<times> 'd feed_state \<times> sl_state"
where
  "loop_body e im ids fs s =
     (let more = (ci fs < length ids - 1 \<or> length (in_ptr fs) > 0) in
      case tinfl_decompress e (decomp fs) (in_ptr fs) (dict_ofs fs) more of
        (st, in_bytes, outb, d') \<Rightarrow>
          (let inp = drop in_bytes (in_ptr fs);
               dofs = (dict_ofs fs + length outb) mod TINFL_LZ_DICT_SIZE;
               s' = feed im outb s;
               fs' = (if length inp = 0 \<and> ci fs < length ids - 1
                      then \<lparr>decomp = d', ci = ci fs + 1, in_ptr = ids ! (ci fs + 1),
                            dict_ofs = dofs\<rparr>
                      else \<lparr>decomp = d', ci = ci fs, in_ptr = inp, dict_ofs = dofs\<rparr>)
           in (st, fs', s')))"

text \<open>
  The outer loop.  It need not terminate (a decompressor may keep asking for input
  without progress), so it runs on fuel: \<open>None\<close> is "no return within \<open>n\<close>
  iterations".  The result is the return code and the final scanline state.
\<close>

primrec decode_loop ::
  "nat \<Rightarrow> 'd env \<Rightarrow> image \<Rightarrow> u8 list list \<Rightarrow> 'd feed_state \<Rightarrow> sl_state \<Rightarrow> (int \<times> sl_state) option"
where
  "decode_loop 0 e im ids fs s = (if int (row s) < sint (img_h im) then None else Some (0, s))"
| "decode_loop (Suc n) e im ids fs s =
     (if int (row s) < sint (img_h im) then
        (case loop_body e im ids fs s of
           (st, fs', s') \<Rightarrow>
             if st = StDone then Some (0, s')
             else if st = StFailed then Some (- 1, s')
             else decode_loop n e im ids fs' s')
      else Some (0, s))"

subsection \<open>sped_decode\<close>

text \<open>
  The IHDR fields, read at \<^verbatim>\<open>ihdr = base + 16\<close>: \<^verbatim>\<open>w = r32(ihdr)\<close>,
  \<^verbatim>\<open>h = r32(ihdr + 4)\<close>, \<^verbatim>\<open>depth = ihdr[8]\<close>, \<^verbatim>\<open>ctype = ihdr[9]\<close> and the
  compression, filter and interlace methods \<^verbatim>\<open>ihdr[10]\<close>, \<^verbatim>\<open>ihdr[11]\<close>, \<^verbatim>\<open>ihdr[12]\<close>.
\<close>

definition ihdr_w :: "u8 list \<Rightarrow> u32" where "ihdr_w png = r32 png 16"
definition ihdr_h :: "u8 list \<Rightarrow> u32" where "ihdr_h png = r32 png 20"
definition ihdr_depth :: "u8 list \<Rightarrow> u8" where "ihdr_depth png = png ! 24"
definition ihdr_ctype :: "u8 list \<Rightarrow> u8" where "ihdr_ctype png = png ! 25"
definition ihdr_compression :: "u8 list \<Rightarrow> u8" where "ihdr_compression png = png ! 26"
definition ihdr_filter :: "u8 list \<Rightarrow> u8" where "ihdr_filter png = png ! 27"
definition ihdr_interlace :: "u8 list \<Rightarrow> u8" where "ihdr_interlace png = png ! 28"

text \<open>The \<^verbatim>\<open>switch (ctype)\<close> that sets \<^verbatim>\<open>bpp\<close>; \<open>None\<close> is its \<^verbatim>\<open>default: return -1\<close>.\<close>

definition bpp_of :: "u8 \<Rightarrow> nat \<Rightarrow> nat option" where
  "bpp_of ctype bpc =
     (if ctype = 0 then Some (1 * bpc)
      else if ctype = 2 then Some (3 * bpc)
      else if ctype = 3 then Some 1
      else if ctype = 4 then Some (2 * bpc)
      else if ctype = 6 then Some (4 * bpc)
      else None)"

text \<open>
  The part of \<^verbatim>\<open>sped_decode\<close> after the output dimensions are known: chunk scan, buffer
  allocation, and the decode loop.  \<^verbatim>\<open>stride\<close> is the \<^verbatim>\<open>int\<close> the code computes; a
  negative one is a request for more than half the address space and the allocation
  fails.  When \<open>w * bpp\<close> is \<open>2^32\<close> or more the C code overruns its scanline buffers,
  and the list reads of the model are out of range as well.
\<close>

definition decode_image ::
  "nat \<Rightarrow> 'd env \<Rightarrow> u8 list \<Rightarrow> int \<Rightarrow> nat \<Rightarrow> nat \<Rightarrow> int \<Rightarrow> (int \<times> row_call list) option"
where
  "decode_image fuel e png scale bpc bpp stride =
     (let out_w = unat (ihdr_w png) div nat scale;
          ch = scan_chunks png (ihdr_ctype png) (8 + 25)
                 \<lparr>pal = pal_stack e, pal_a = (\<lambda>i. 255), idat = []\<rparr>
      in if length (idat ch) = 0 then Some (- 1, [])
         else if stride < 0 \<or> \<not> alloc_ok e then Some (- 1, [])
         else
           (let im = \<lparr>img_w = ihdr_w png, img_h = ihdr_h png, img_ctype = ihdr_ctype png,
                      img_bpc = bpc, img_bpp = bpp, img_stride = nat stride,
                      img_scale = nat scale, img_out_w = out_w, img_pal = pal ch\<rparr>;
                s0 = \<lparr>cur = replicate (nat stride) 0, prev = replicate (nat stride) 0,
                      acc = (if scale > 1 then replicate (out_w * 3) 0 else []),
                      sl_pos = 0, filter = 0, row = 0, out_row = 0, calls = []\<rparr>;
                fs0 = \<lparr>decomp = tinfl_init e, ci = 0, in_ptr = idat ch ! 0, dict_ofs = 0\<rparr>
            in case decode_loop fuel e im (idat ch) fs0 s0 of
                 None \<Rightarrow> None
               | Some (rc, s) \<Rightarrow> Some (rc, calls s)))"

text \<open>
  The result of \<^verbatim>\<open>sped_decode\<close> is \<open>None\<close> when the call does not return within the
  given number of iterations of the decode loop, and otherwise the return code with the
  callback invocations made, in order.
\<close>

definition sped_decode :: "nat \<Rightarrow> 'd env \<Rightarrow> u8 list \<Rightarrow> int \<Rightarrow> (int \<times> row_call list) option" where
  "sped_decode fuel e png scale =
     (if scale \<noteq> 1 \<and> scale \<noteq> 2 \<and> scale \<noteq> 4 then Some (- 1, [])
      else if length png < 33 \<or> bytes_at png 0 8 \<noteq> png_sig then Some (- 1, [])
      else if r32 png 8 \<noteq> 13 \<or> bytes_at png 12 4 \<noteq> tag_IHDR then Some (- 1, [])
      else if ihdr_compression png \<noteq> 0 then Some (- 1, [])
      else if ihdr_filter png \<noteq> 0 then Some (- 1, [])
      else if ihdr_interlace png \<noteq> 0 then Some (- 1, [])
      else if ihdr_depth png \<noteq> 8 \<and> ihdr_depth png \<noteq> 16 then Some (- 1, [])
      else if ihdr_depth png = 16 \<and> ihdr_ctype png = 3 then Some (- 1, [])
      else if ihdr_w png = 0 \<or> ihdr_h png = 0 then Some (- 1, [])
      else
        (let bpc = unat (ihdr_depth png) div 8 in
         case bpp_of (ihdr_ctype png) bpc of
           None \<Rightarrow> Some (- 1, [])
         | Some bpp \<Rightarrow>
             (let stride = sint (ihdr_w png * word_of_nat bpp);
                  out_w = unat (ihdr_w png) div nat scale;
                  out_h = unat (ihdr_h png) div nat scale
              in if out_w = 0 \<or> out_h = 0 then Some (- 1, [])
                 else decode_image fuel e png scale bpc bpp stride)))"

subsection \<open>The contract of the decompressor\<close>

text \<open>
  What section 4.3 of the specification expects of a correct streaming decompressor, for a
  compressed stream \<open>zs\<close> that inflates to \<open>ds\<close>.  A state is reachable with \<open>i\<close> bytes
  consumed and \<open>j\<close> bytes produced when a sequence of calls leads to it from the initial
  state, each call offering a window of the unconsumed input and announcing "no more
  input" only when the window reaches the end of the stream.
\<close>

inductive reach :: "'d env \<Rightarrow> u8 list \<Rightarrow> 'd \<Rightarrow> nat \<Rightarrow> nat \<Rightarrow> bool" for e zs where
  reach_init: "reach e zs (tinfl_init e) 0 0"
| reach_step:
    "reach e zs d i j \<Longrightarrow> i + n \<le> length zs \<Longrightarrow> (\<not> hm \<longrightarrow> i + n = length zs) \<Longrightarrow>
     tinfl_decompress e d (take n (drop i zs)) (j mod TINFL_LZ_DICT_SIZE) hm = (st, k, outb, d') \<Longrightarrow>
     reach e zs d' (i + k) (j + length outb)"

text \<open>
  One call, made with \<open>j\<close> bytes already produced and a window of \<open>n\<close> bytes: it consumes
  a prefix of the window, writes the next bytes of \<open>ds\<close>, does not fail, reports
  \<open>Done\<close> only when all of \<open>ds\<close> is written, and otherwise makes progress unless it was
  given an empty window with more input announced.
\<close>

definition step_ok ::
  "u8 list \<Rightarrow> nat \<Rightarrow> nat \<Rightarrow> bool \<Rightarrow> tinfl_status \<times> nat \<times> u8 list \<times> 'd \<Rightarrow> bool"
where
  "step_ok ds j n hm r =
     (case r of (st, k, outb, d') \<Rightarrow>
        k \<le> n \<and> j + length outb \<le> length ds \<and> outb = take (length outb) (drop j ds) \<and>
        st \<noteq> StFailed \<and> (st = StDone \<longrightarrow> j + length outb = length ds) \<and>
        (st \<noteq> StDone \<longrightarrow> 0 < k \<or> outb \<noteq> [] \<or> (n = 0 \<and> hm)))"

definition inflates :: "'d env \<Rightarrow> u8 list \<Rightarrow> u8 list \<Rightarrow> bool" where
  "inflates e zs ds =
     (\<forall>d i j n hm. reach e zs d i j \<longrightarrow> i + n \<le> length zs \<longrightarrow> (\<not> hm \<longrightarrow> i + n = length zs) \<longrightarrow>
        step_ok ds j n hm
          (tinfl_decompress e d (take n (drop i zs)) (j mod TINFL_LZ_DICT_SIZE) hm))"

subsection \<open>The image a PNG denotes\<close>

text \<open>
  The values \<^verbatim>\<open>sped_decode\<close> derives from a PNG before its decode loop: the chunk scan,
  the image parameters, and the initial scanline state.
\<close>

definition scanned :: "'d env \<Rightarrow> u8 list \<Rightarrow> chunks" where
  "scanned e png =
     scan_chunks png (ihdr_ctype png) (8 + 25) \<lparr>pal = pal_stack e, pal_a = (\<lambda>i. 255), idat = []\<rparr>"

definition png_bpc :: "u8 list \<Rightarrow> nat" where
  "png_bpc png = unat (ihdr_depth png) div 8"

definition png_bpp :: "u8 list \<Rightarrow> nat" where
  "png_bpp png = (case bpp_of (ihdr_ctype png) (png_bpc png) of None \<Rightarrow> 0 | Some b \<Rightarrow> b)"

definition png_stride :: "u8 list \<Rightarrow> nat" where
  "png_stride png = unat (ihdr_w png) * png_bpp png"

definition image_of :: "'d env \<Rightarrow> u8 list \<Rightarrow> int \<Rightarrow> image" where
  "image_of e png scale =
     \<lparr>img_w = ihdr_w png, img_h = ihdr_h png, img_ctype = ihdr_ctype png,
      img_bpc = png_bpc png, img_bpp = png_bpp png, img_stride = png_stride png,
      img_scale = nat scale, img_out_w = unat (ihdr_w png) div nat scale,
      img_pal = pal (scanned e png)\<rparr>"

definition init_state :: "u8 list \<Rightarrow> int \<Rightarrow> sl_state" where
  "init_state png scale =
     \<lparr>cur = replicate (png_stride png) 0, prev = replicate (png_stride png) 0,
      acc = (if scale > 1 then replicate (unat (ihdr_w png) div nat scale * 3) 0 else []),
      sl_pos = 0, filter = 0, row = 0, out_row = 0, calls = []\<rparr>"

text \<open>
  A header the decoder accepts at the given scale: it passes every check of
  \<^verbatim>\<open>sped_decode\<close>, and the scanline size and the height fit an \<^verbatim>\<open>int\<close>.
\<close>

definition header_ok :: "u8 list \<Rightarrow> int \<Rightarrow> bool" where
  "header_ok png scale =
     (scale \<in> {1, 2, 4} \<and> 33 \<le> length png \<and> bytes_at png 0 8 = png_sig \<and>
      r32 png 8 = 13 \<and> bytes_at png 12 4 = tag_IHDR \<and>
      ihdr_compression png = 0 \<and> ihdr_filter png = 0 \<and> ihdr_interlace png = 0 \<and>
      ihdr_depth png \<in> {8, 16} \<and> ihdr_ctype png \<in> {0, 2, 3, 4, 6} \<and>
      \<not> (ihdr_depth png = 16 \<and> ihdr_ctype png = 3) \<and>
      0 < unat (ihdr_w png) div nat scale \<and> 0 < unat (ihdr_h png) div nat scale \<and>
      png_stride png < 2 ^ 31 \<and> unat (ihdr_h png) < 2 ^ 31)"

text \<open>
  A PNG the decoder accepts, with decompressed image data \<open>ds\<close>: the header is accepted,
  the work buffers can be allocated, the chunk scan has kept an IDAT chunk, and the
  decompressor inflates the concatenation of the IDAT payloads the scan has kept (the first
  \<open>SPED_MAX_IDAT\<close> of them) to \<open>ds\<close>.
\<close>

definition decodable :: "'d env \<Rightarrow> u8 list \<Rightarrow> int \<Rightarrow> u8 list \<Rightarrow> bool" where
  "decodable e png scale ds =
     (header_ok png scale \<and> alloc_ok e \<and> idat (scanned e png) \<noteq> [] \<and>
      inflates e (concat (idat (scanned e png))) ds)"

subsection \<open>The rows a data stream denotes\<close>

text \<open>
  The decompressed stream is a sequence of scanlines of \<open>stride + 1\<close> bytes: a filter
  byte and the scanline body.  \<open>recon im ds r\<close> is the reconstructed scanline above row
  \<open>r\<close> (all zero above row 0), and \<open>src_rgb im ds r x\<close> the source pixel in column \<open>x\<close>
  of row \<open>r\<close>, as sections 4.5 and 4.6 of the specification define them.
\<close>

definition filter_byte :: "image \<Rightarrow> u8 list \<Rightarrow> nat \<Rightarrow> u8" where
  "filter_byte im ds r = ds ! (r * (img_stride im + 1))"

definition body :: "image \<Rightarrow> u8 list \<Rightarrow> nat \<Rightarrow> u8 list" where
  "body im ds r = take (img_stride im) (drop (r * (img_stride im + 1) + 1) ds)"

primrec recon :: "image \<Rightarrow> u8 list \<Rightarrow> nat \<Rightarrow> u8 list" where
  "recon im ds 0 = replicate (img_stride im) 0"
| "recon im ds (Suc r) =
     unfilter (filter_byte im ds r) (img_bpp im) (img_stride im) (recon im ds r) (body im ds r)"

definition src_rgb :: "image \<Rightarrow> u8 list \<Rightarrow> nat \<Rightarrow> nat \<Rightarrow> rgb" where
  "src_rgb im ds r x =
     get_pixel (recon im ds (Suc r)) x (img_ctype im) (img_bpc im) (img_pal im)"

definition chan :: "nat \<Rightarrow> rgb \<Rightarrow> nat" where
  "chan c px = (case px of (r, g, bl) \<Rightarrow> if c = 0 then unat r else if c = 1 then unat g else unat bl)"

text \<open>
  The sum of channel \<open>c\<close> over the block of \<open>scale \<times> scale\<close> source pixels with rows
  \<open>oy * scale .. oy * scale + scale - 1\<close> and columns \<open>ox * scale .. ox * scale + scale - 1\<close>,
  and the per-channel floor average of the block.
\<close>

definition block_sum :: "image \<Rightarrow> u8 list \<Rightarrow> nat \<Rightarrow> nat \<Rightarrow> nat \<Rightarrow> nat" where
  "block_sum im ds oy ox c =
     (\<Sum>r = oy * img_scale im..<oy * img_scale im + img_scale im.
        \<Sum>x = ox * img_scale im..<ox * img_scale im + img_scale im. chan c (src_rgb im ds r x))"

definition block_avg :: "image \<Rightarrow> u8 list \<Rightarrow> nat \<Rightarrow> nat \<Rightarrow> rgb" where
  "block_avg im ds oy ox =
     (word_of_nat (block_sum im ds oy ox 0 div (img_scale im * img_scale im)),
      word_of_nat (block_sum im ds oy ox 1 div (img_scale im * img_scale im)),
      word_of_nat (block_sum im ds oy ox 2 div (img_scale im * img_scale im)))"

text \<open>The callback invocation for row \<open>r\<close> at scale 1, and for output row \<open>oy\<close> otherwise.\<close>

definition full_row :: "image \<Rightarrow> u8 list \<Rightarrow> nat \<Rightarrow> row_call" where
  "full_row im ds r =
     \<lparr>cb_y = int r, cb_w = sint (img_w im),
      cb_px = map (\<lambda>x. pack565 (src_rgb im ds r x)) [0..<unat (img_w im)]\<rparr>"

definition scaled_row :: "image \<Rightarrow> u8 list \<Rightarrow> nat \<Rightarrow> row_call" where
  "scaled_row im ds oy =
     \<lparr>cb_y = int oy, cb_w = int (img_out_w im),
      cb_px = map (\<lambda>ox. pack565 (block_avg im ds oy ox)) [0..<img_out_w im]\<rparr>"

text \<open>The invocations due after \<open>k\<close> complete scanlines.\<close>

definition expected_calls :: "image \<Rightarrow> u8 list \<Rightarrow> nat \<Rightarrow> row_call list" where
  "expected_calls im ds k =
     (if img_scale im = 1 then map (full_row im ds) [0..<k]
      else map (scaled_row im ds) [0..<k div img_scale im])"

subsection \<open>The state of the scanline assembler between rows\<close>

text \<open>
  \<open>row_sum im c i\<close> is what one reconstructed scanline \<open>c\<close> adds to accumulator lane
  \<open>i\<close>: lane \<open>3 * ox + ch\<close> receives channel \<open>ch\<close> of the columns \<open>x\<close> with
  \<open>x div scale = ox\<close>.  \<open>part_sum im ds k i\<close> is the content of lane \<open>i\<close> after \<open>k\<close>
  scanlines: the rows since the last emitted output row.
\<close>

definition row_sum :: "image \<Rightarrow> u8 list \<Rightarrow> nat \<Rightarrow> nat \<Rightarrow> nat" where
  "row_sum im c m i =
     (\<Sum>x<m. if x div img_scale im = i div 3
              then chan (i mod 3) (get_pixel c x (img_ctype im) (img_bpc im) (img_pal im))
              else 0)"

definition part_sum :: "image \<Rightarrow> u8 list \<Rightarrow> nat \<Rightarrow> nat \<Rightarrow> nat" where
  "part_sum im ds k i =
     (\<Sum>r = k - k mod img_scale im..<k.
        row_sum im (recon im ds (Suc r)) (img_out_w im * img_scale im) i)"

text \<open>The state after \<open>k\<close> complete scanlines of the stream \<open>ds\<close>.\<close>

definition state_after :: "image \<Rightarrow> u8 list \<Rightarrow> nat \<Rightarrow> sl_state" where
  "state_after im ds k =
     \<lparr>cur = replicate (img_stride im) 0, prev = recon im ds k,
      acc = (if img_scale im = 1 then []
             else map (\<lambda>i. word_of_nat (part_sum im ds k i)) [0..<img_out_w im * 3]),
      sl_pos = 0,
      filter = (if k = 0 then 0 else filter_byte im ds (k - 1)),
      row = k,
      out_row = (if img_scale im = 1 then 0 else k div img_scale im),
      calls = expected_calls im ds k\<rparr>"

subsection \<open>A length-prefixed stored-block decompressor\<close>

text \<open>
  A small decompressor with the interface of the inflate primitive, for a format whose
  stream is one length byte \<open>n\<close> followed by \<open>n\<close> literal bytes.  It instantiates the
  environment in concrete runs of the decoder.
\<close>

datatype stored_state = Header | Body nat

definition stored_body ::
  "nat \<Rightarrow> u8 list \<Rightarrow> nat \<Rightarrow> bool \<Rightarrow> nat \<Rightarrow> tinfl_status \<times> nat \<times> u8 list \<times> stored_state"
where
  "stored_body r inp space has_more c =
     (let k = min r (min (length inp) space)
      in (if k = r then StDone
          else if k = space then StHasMoreOutput
          else if has_more then StNeedsMoreInput
          else StFailed,
          c + k, take k inp, Body (r - k)))"

definition stored_decompress ::
  "stored_state \<Rightarrow> u8 list \<Rightarrow> nat \<Rightarrow> bool \<Rightarrow> tinfl_status \<times> nat \<times> u8 list \<times> stored_state"
where
  "stored_decompress d inp dofs has_more =
     (case d of
        Body r \<Rightarrow> stored_body r inp (TINFL_LZ_DICT_SIZE - dofs) has_more 0
      | Header \<Rightarrow>
          (case inp of
             [] \<Rightarrow> (if has_more then StNeedsMoreInput else StFailed, 0, [], Header)
           | b # rest \<Rightarrow> stored_body (unat b) rest (TINFL_LZ_DICT_SIZE - dofs) has_more 1))"

definition stored_env :: "stored_state env" where
  "stored_env = \<lparr>tinfl_init = Header, tinfl_decompress = stored_decompress,
                  alloc_ok = True, pal_stack = (\<lambda>i. (0, 0, 0))\<rparr>"

subsection \<open>Building PNG images\<close>

text \<open>
  The byte layout of section 4.1 of the specification: a chunk is
  \<^verbatim>\<open>[len:4BE][type:4][data:len][crc:4]\<close>.  The decoder never reads the CRC; it is
  written as zero.
\<close>

definition be32 :: "nat \<Rightarrow> u8 list" where
  "be32 n = [word_of_nat (n div 2 ^ 24), word_of_nat (n div 2 ^ 16), word_of_nat (n div 2 ^ 8),
             word_of_nat n]"

definition be_value :: "u8 list \<Rightarrow> nat \<Rightarrow> nat" where
  "be_value p off = unat (p ! off) * 2 ^ 24 + unat (p ! (off + 1)) * 2 ^ 16 +
                    unat (p ! (off + 2)) * 2 ^ 8 + unat (p ! (off + 3))"

definition mk_chunk :: "u8 list \<Rightarrow> u8 list \<Rightarrow> u8 list" where
  "mk_chunk tag data = be32 (length data) @ tag @ data @ [0, 0, 0, 0]"

definition mk_ihdr :: "nat \<Rightarrow> nat \<Rightarrow> u8 \<Rightarrow> u8 \<Rightarrow> u8 \<Rightarrow> u8 \<Rightarrow> u8 \<Rightarrow> u8 list" where
  "mk_ihdr w h depth ctype cm fm il =
     png_sig @ mk_chunk tag_IHDR (be32 w @ be32 h @ [depth, ctype, cm, fm, il])"

text \<open>Header-only images: the signature and one IHDR chunk, 33 bytes.\<close>

definition png_zero_dims :: "u8 list" where "png_zero_dims = mk_ihdr 0 0 8 2 0 0 0"
definition png_interlaced :: "u8 list" where "png_interlaced = mk_ihdr 1 1 8 2 0 0 1"
definition png_depth4 :: "u8 list" where "png_depth4 = mk_ihdr 1 1 4 0 0 0 0"
definition png_ctype5 :: "u8 list" where "png_ctype5 = mk_ihdr 1 1 8 5 0 0 0"

text \<open>
  A 2 by 2 RGB image (colour type 2, depth 8) with the pixels (255,0,0), (0,255,0) in row 0
  and (0,0,255), (255,255,255) in row 1: its two scanlines with filter type 0, and the PNG
  around an IDAT payload \<open>zs\<close>.
\<close>

definition raw_2x2 :: "u8 list" where
  "raw_2x2 = [0, 255, 0, 0, 0, 255, 0, 0, 0, 0, 255, 255, 255, 255]"

definition png_2x2_rgb :: "u8 list \<Rightarrow> u8 list" where
  "png_2x2_rgb zs = mk_ihdr 2 2 8 2 0 0 0 @ mk_chunk tag_IDAT zs @ mk_chunk tag_IEND []"

text \<open>
  A 1 by 2 greyscale image (colour type 0, depth 8) around an IDAT payload \<open>zs\<close>; it
  needs two scanlines of two bytes each.
\<close>

definition png_1x2_gray :: "u8 list \<Rightarrow> u8 list" where
  "png_1x2_gray zs = mk_ihdr 1 2 8 0 0 0 0 @ mk_chunk tag_IDAT zs @ mk_chunk tag_IEND []"

subsection \<open>PNG images as chunk lists\<close>

text \<open>
  A chunk is its type, its data and its CRC.  \<open>enc_chunk\<close> is the byte layout
  \<^verbatim>\<open>[len:4BE][type:4][data:len][crc:4]\<close> of one chunk, \<open>enc_chunks\<close> that of a chunk list,
  and \<open>png_of_chunks hdr cs rest\<close> is the file made of the 33 bytes \<open>hdr\<close> of signature and
  IHDR chunk, the chunks \<open>cs\<close>, the length and type of an IEND chunk, and whatever follows
  them (the CRC of IEND and any trailing bytes).  A chunk of \<open>cs\<close> has a type of four
  bytes other than IEND, data shorter than \<open>2^32\<close> bytes and a CRC of four bytes, of any
  value.  \<open>idat_payloads\<close> are the data of the IDAT chunks, in file order.

  \<open>scan_list\<close> is the chunk loop of \<^verbatim>\<open>sped_decode\<close> run on the chunk list instead of the
  bytes; it is related to \<open>scan_chunks\<close> by the lemma \<open>scan_chunks_list\<close>.
\<close>

type_synonym chunk = "u8 list \<times> u8 list \<times> u8 list"

definition enc_chunk :: "chunk \<Rightarrow> u8 list" where
  "enc_chunk c = (case c of (t, d, crc) \<Rightarrow> be32 (length d) @ t @ d @ crc)"

definition enc_chunks :: "chunk list \<Rightarrow> u8 list" where
  "enc_chunks cs = concat (map enc_chunk cs)"

definition png_of_chunks :: "u8 list \<Rightarrow> chunk list \<Rightarrow> u8 list \<Rightarrow> u8 list" where
  "png_of_chunks hdr cs rest = hdr @ enc_chunks cs @ be32 0 @ tag_IEND @ rest"

definition chunk_ok :: "chunk \<Rightarrow> bool" where
  "chunk_ok c = (case c of (t, d, crc) \<Rightarrow>
     length t = 4 \<and> t \<noteq> tag_IEND \<and> length d < 2 ^ 32 \<and> length crc = 4)"

definition idat_payloads :: "chunk list \<Rightarrow> u8 list list" where
  "idat_payloads cs = map (\<lambda>c. fst (snd c)) (List.filter (\<lambda>c. fst c = tag_IDAT) cs)"

fun scan_list :: "u8 \<Rightarrow> chunk list \<Rightarrow> chunks \<Rightarrow> chunks" where
  "scan_list ctype [] s = s"
| "scan_list ctype ((t, d, crc) # cs) s =
     (if t = tag_PLTE then
        scan_list ctype cs (s\<lparr>pal := copy_plte (enc_chunk (t, d, crc)) 0 (length d) (pal s)\<rparr>)
      else if t = tag_tRNS then
        scan_list ctype cs
          (if ctype = 3
           then s\<lparr>pal_a := copy_trns (enc_chunk (t, d, crc)) 0 (length d) (pal_a s)\<rparr> else s)
      else if t = tag_IDAT then
        scan_list ctype cs
          (if length (idat s) < SPED_MAX_IDAT then s\<lparr>idat := idat s @ [d]\<rparr> else s)
      else if t = tag_IEND then s
      else scan_list ctype cs s)"

subsection \<open>Images built from chunk lists\<close>

text \<open>
  A 1 by 32 greyscale image whose stored stream, the length byte 64 and 32 scanlines of a
  filter byte 0 and a white pixel, is cut into 65 IDAT chunks of one byte each.
\<close>

definition rows_1x32 :: "u8 list" where
  "rows_1x32 = concat (replicate 32 [0, 255])"

definition chunks_65 :: "chunk list" where
  "chunks_65 = map (\<lambda>b. (tag_IDAT, [b], [0, 0, 0, 0])) (64 # rows_1x32)"

definition png_65_idat :: "u8 list" where
  "png_65_idat = png_of_chunks (mk_ihdr 1 32 8 0 0 0 0) chunks_65 [0, 0, 0, 0]"

text \<open>
  The 2 by 2 image of \<open>raw_2x2\<close> with its stored stream in one IDAT chunk, and with the
  stream cut after 5 bytes into two IDAT chunks.
\<close>

definition png_2x2_single :: "u8 list" where
  "png_2x2_single =
     png_of_chunks (mk_ihdr 2 2 8 2 0 0 0) [(tag_IDAT, 14 # raw_2x2, [0, 0, 0, 0])] [0, 0, 0, 0]"

definition chunks_2x2_split :: "chunk list" where
  "chunks_2x2_split =
     [(tag_IDAT, take 5 (14 # raw_2x2), [0, 0, 0, 0]), (tag_IDAT, drop 5 (14 # raw_2x2), [0, 0, 0, 0])]"

definition png_2x2_split :: "u8 list" where
  "png_2x2_split = png_of_chunks (mk_ihdr 2 2 8 2 0 0 0) chunks_2x2_split [0, 0, 0, 0]"

subsection \<open>The forward filter of the encoder\<close>

text \<open>
  The decoder holds no forward filter.  This one follows the PNG filter types that section
  4.5 of the specification inverts: the filtered byte is the original byte minus the
  predictor of its filter type, computed from the original bytes of the scanline, modulo
  256.
\<close>

definition predictor :: "u8 \<Rightarrow> u8 \<Rightarrow> u8 \<Rightarrow> u8 \<Rightarrow> u8" where
  "predictor f a b c =
     (if f = 1 then a
      else if f = 2 then b
      else if f = 3 then word_of_int ((uint a + uint b) div 2)
      else if f = 4 then paeth a b c
      else 0)"

definition png_filter :: "u8 \<Rightarrow> nat \<Rightarrow> u8 list \<Rightarrow> u8 list \<Rightarrow> u8 list" where
  "png_filter f bpp pr c =
     map (\<lambda>i. c ! i - predictor f (if i \<ge> bpp then c ! (i - bpp) else 0) (pr ! i)
                                   (if i \<ge> bpp then pr ! (i - bpp) else 0))
       [0..<length c]"

section \<open>Properties\<close>

subsection \<open>Evaluation of concrete images\<close>

lemmas png_eval = mk_ihdr_def mk_chunk_def be32_def png_sig_def tag_IHDR_def bytes_at_def r32_def
  ihdr_w_def ihdr_h_def ihdr_depth_def ihdr_ctype_def ihdr_compression_def ihdr_filter_def
  ihdr_interlace_def nth_append

lemma info_zero_dims: "sped_info png_zero_dims info = (0, info\<lparr>width := 0, height := 0\<rparr>)"
  by (simp add: sped_info_def png_zero_dims_def png_eval)

lemma info_interlaced: "sped_info png_interlaced info = (0, info\<lparr>width := 1, height := 1\<rparr>)"
  by (simp add: sped_info_def png_interlaced_def png_eval)

lemma info_depth4: "sped_info png_depth4 info = (0, info\<lparr>width := 1, height := 1\<rparr>)"
  by (simp add: sped_info_def png_depth4_def png_eval)

lemma info_ctype5: "sped_info png_ctype5 info = (0, info\<lparr>width := 1, height := 1\<rparr>)"
  by (simp add: sped_info_def png_ctype5_def png_eval)

lemma decode_zero_dims: "sped_decode fuel e png_zero_dims scale = Some (- 1, [])"
  by (simp add: sped_decode_def png_zero_dims_def png_eval)

lemma decode_interlaced: "sped_decode fuel e png_interlaced scale = Some (- 1, [])"
  by (simp add: sped_decode_def png_interlaced_def png_eval)

lemma decode_depth4: "sped_decode fuel e png_depth4 scale = Some (- 1, [])"
  by (simp add: sped_decode_def png_depth4_def png_eval)

lemma decode_ctype5: "sped_decode fuel e png_ctype5 scale = Some (- 1, [])"
  by (simp add: sped_decode_def png_ctype5_def png_eval bpp_of_def)

subsection \<open>Big-endian reads\<close>

lemma be_or_add:
  fixes a b c d :: u8
  shows "(push_bit 24 (ucast a) OR push_bit 16 (ucast b) OR push_bit 8 (ucast c) OR ucast d :: u32)
       = push_bit 24 (ucast a) + (push_bit 16 (ucast b) + (push_bit 8 (ucast c) + ucast d))"
proof -
  have 1: "push_bit 8 (ucast c :: u32) AND ucast d = 0"
    by (auto simp: bit_eq_iff bit_simps dest: bit_imp_le_length)
  have 2: "push_bit 16 (ucast b :: u32) AND (push_bit 8 (ucast c) OR ucast d) = 0"
    by (auto simp: bit_eq_iff bit_simps dest: bit_imp_le_length)
  have 3: "push_bit 24 (ucast a :: u32) AND
           (push_bit 16 (ucast b) OR push_bit 8 (ucast c) OR ucast d) = 0"
    by (auto simp: bit_eq_iff bit_simps dest: bit_imp_le_length)
  show ?thesis
    using 1 2 3 by (simp add: disjunctive_add_eq_or)
qed

lemma unat_u8_bound: "unat (a :: u8) < 256"
  using unsigned_less [of a, where ?'a = nat] by simp

lemma unat_ucast_u8: "unat (ucast (a :: u8) :: u32) = unat a"
  using unat_u8_bound [of a] by (simp add: unsigned_ucast_eq take_bit_nat_eq_self)

lemma r32_big_endian: "unat (r32 p off) = be_value p off"
proof -
  have "unat (p ! off) < 256" "unat (p ! (off + 1)) < 256" "unat (p ! (off + 2)) < 256"
       "unat (p ! (off + 3)) < 256"
    by (rule unat_u8_bound)+
  then show ?thesis
    unfolding r32_def be_or_add be_value_def
    by (simp add: push_bit_eq_mult unat_word_ariths unat_ucast_u8)
qed

lemma r32_eq_13: "(r32 p off = 13) = (be_value p off = 13)"
  by (simp add: word_unat_eq_iff r32_big_endian)

subsection \<open>Header queries and header validation\<close>

text \<open>
  Claim C10.  \<^verbatim>\<open>sped_info\<close> succeeds exactly when the input has at least 33 bytes, its
  first 8 bytes are the PNG signature, and the chunk at offset 8 declares length 13 with
  type IHDR.  On success it returns the raw big-endian width and height fields, unchecked
  (on failure the structure is left as it was): it succeeds, reporting zero dimensions, on
  an image with zero width and height, and it succeeds on an interlaced image and on
  images of unsupported depth or colour type, all of which \<^verbatim>\<open>sped_decode\<close> rejects.
\<close>

theorem sped_info_contract:
  "(fst (sped_info png info) = 0) =
     (33 \<le> length png \<and> bytes_at png 0 8 = png_sig \<and> be_value png 8 = 13 \<and>
      bytes_at png 12 4 = tag_IHDR) \<and>
   (fst (sped_info png info) = 0 \<longrightarrow>
      unat (width (snd (sped_info png info))) = be_value png 16 \<and>
      unat (height (snd (sped_info png info))) = be_value png 20) \<and>
   (fst (sped_info png info) \<noteq> 0 \<longrightarrow> sped_info png info = (- 1, info)) \<and>
   (sped_info png_zero_dims info = (0, info\<lparr>width := 0, height := 0\<rparr>) \<and>
    sped_decode fuel e png_zero_dims scale = Some (- 1, [])) \<and>
   (fst (sped_info png_interlaced info) = 0 \<and>
    sped_decode fuel e png_interlaced scale = Some (- 1, [])) \<and>
   (fst (sped_info png_depth4 info) = 0 \<and>
    sped_decode fuel e png_depth4 scale = Some (- 1, [])) \<and>
   (fst (sped_info png_ctype5 info) = 0 \<and>
    sped_decode fuel e png_ctype5 scale = Some (- 1, []))"
proof -
  have a: "(fst (sped_info png info) = 0) =
     (33 \<le> length png \<and> bytes_at png 0 8 = png_sig \<and> be_value png 8 = 13 \<and>
      bytes_at png 12 4 = tag_IHDR)"
    by (auto simp: sped_info_def r32_eq_13)
  have b: "fst (sped_info png info) = 0 \<longrightarrow>
      unat (width (snd (sped_info png info))) = be_value png 16 \<and>
      unat (height (snd (sped_info png info))) = be_value png 20"
    by (simp add: sped_info_def r32_big_endian)
  have c: "fst (sped_info png info) \<noteq> 0 \<longrightarrow> sped_info png info = (- 1, info)"
    by (simp add: sped_info_def)
  show ?thesis
    using a b c
    by (simp only: info_zero_dims info_interlaced info_depth4 info_ctype5 decode_zero_dims
        decode_interlaced decode_depth4 decode_ctype5 fst_conv simp_thms)
qed

theorem sped_info_contract_witness:
  "fst (sped_info png_interlaced \<lparr>width = 7, height = 7\<rparr>) = 0 \<and>
   33 \<le> length png_interlaced \<and>
   be_value png_interlaced 16 = 1 \<and>
   unat (width (snd (sped_info png_interlaced \<lparr>width = 7, height = 7\<rparr>))) = 1 \<and>
   fst (sped_info [] \<lparr>width = 7, height = 7\<rparr>) \<noteq> 0 \<and>
   sped_info [] \<lparr>width = 7, height = 7\<rparr> = (- 1, \<lparr>width = 7, height = 7\<rparr>)"
  using sped_info_contract [of png_interlaced "\<lparr>width = 7, height = 7\<rparr>"]
    sped_info_contract [of "[]" "\<lparr>width = 7, height = 7\<rparr>"]
  by (simp add: info_interlaced be_value_def png_interlaced_def png_eval sped_info_def)

lemma bpp_of_None: "ctype \<notin> {0, 2, 3, 4, 6} \<Longrightarrow> bpp_of ctype bpc = None"
  by (simp add: bpp_of_def)

text \<open>
  Claim C5.  \<^verbatim>\<open>sped_decode\<close> returns an error, and never invokes the row callback,
  whenever the IHDR compression, filter or interlace method is not 0, the bit depth is not
  8 or 16, the bit depth is 16 with colour type 3, the colour type is not one of
  0, 2, 3, 4, 6, the width or the height is 0, the scale is not 1, 2 or 4, or
  \<open>W div scale\<close> or \<open>H div scale\<close> is 0.
\<close>

theorem sped_decode_rejects:
  assumes "scale \<notin> {1, 2, 4} \<or> ihdr_compression png \<noteq> 0 \<or> ihdr_filter png \<noteq> 0 \<or>
           ihdr_interlace png \<noteq> 0 \<or> ihdr_depth png \<notin> {8, 16} \<or>
           (ihdr_depth png = 16 \<and> ihdr_ctype png = 3) \<or>
           ihdr_ctype png \<notin> {0, 2, 3, 4, 6} \<or> ihdr_w png = 0 \<or> ihdr_h png = 0 \<or>
           unat (ihdr_w png) div nat scale = 0 \<or> unat (ihdr_h png) div nat scale = 0"
  shows "sped_decode fuel e png scale = Some (- 1, [])"
  using assms
proof (elim disjE, goal_cases)
  case 1 then show ?case by (simp add: sped_decode_def)
next
  case 2 then show ?case by (simp add: sped_decode_def)
next
  case 3 then show ?case by (simp add: sped_decode_def)
next
  case 4 then show ?case by (simp add: sped_decode_def)
next
  case 5 then show ?case by (simp add: sped_decode_def)
next
  case 6 then show ?case by (simp add: sped_decode_def)
next
  case 7 then show ?case by (simp add: sped_decode_def bpp_of_def Let_def)
next
  case 8 then show ?case by (simp add: sped_decode_def)
next
  case 9 then show ?case by (simp add: sped_decode_def)
next
  case 10 then show ?case
    by (cases "bpp_of (ihdr_ctype png) (unat (ihdr_depth png) div 8)")
      (simp_all only: sped_decode_def Let_def option.case simp_thms if_True if_cancel)
next
  case 11 then show ?case
    by (cases "bpp_of (ihdr_ctype png) (unat (ihdr_depth png) div 8)")
      (simp_all only: sped_decode_def Let_def option.case simp_thms if_True if_cancel)
qed

theorem sped_decode_rejects_witness:
  "ihdr_interlace png_interlaced \<noteq> 0 \<and>
   sped_decode 5 stored_env png_interlaced 1 = Some (- 1, []) \<and>
   unat (ihdr_w png_interlaced) div nat 2 = 0 \<and>
   ihdr_interlace (mk_ihdr 1 1 8 2 0 0 0) = 0 \<and>
   sped_decode 5 stored_env (mk_ihdr 1 1 8 2 0 0 0) 2 = Some (- 1, [])"
  using sped_decode_rejects [of 1 png_interlaced 5 stored_env]
    sped_decode_rejects [of 2 "mk_ihdr 1 1 8 2 0 0 0" 5 stored_env]
  by (simp add: png_interlaced_def png_eval)

subsection \<open>The scanline assembler\<close>

lemma feed_Nil [simp]: "feed im [] s = s"
  by (simp add: feed.simps)

lemma feed_done [simp]: "\<not> int (row s) < sint (img_h im) \<Longrightarrow> feed im dp s = s"
  by (subst feed.simps) simp

lemma feed_filter_byte:
  assumes "int (row s) < sint (img_h im)" "sl_pos s = 0"
  shows "feed im (b # dp) s = feed im dp (s\<lparr>filter := b, sl_pos := 1\<rparr>)"
  using assms by (subst feed.simps) simp

lemma feed_body:
  assumes "int (row s) < sint (img_h im)" "sl_pos s \<noteq> 0" "dp \<noteq> []"
  shows "feed im dp s = feed im (drop (scan_take im dp s) dp) (complete_row im (copy_in im dp s))"
  using assms by (subst feed.simps) simp

lemma length_cur_process_row [simp]: "length (cur (process_row im s)) = img_stride im"
  by (simp add: process_row_def Let_def)

lemma length_cur_copy_in:
  "length (cur s) = img_stride im \<Longrightarrow> length (cur (copy_in im dp s)) = img_stride im"
  by (auto simp: copy_in_def scan_take_def Let_def)

lemma length_cur_complete_row:
  "length (cur s) = img_stride im \<Longrightarrow> length (cur (complete_row im s)) = img_stride im"
  by (simp add: complete_row_def)

lemma length_cur_feed:
  "length (cur s) = img_stride im \<Longrightarrow> length (cur (feed im dp s)) = img_stride im"
proof (induction im dp s rule: feed.induct)
  case (1 im dp s)
  show ?case
  proof (cases "dp \<noteq> [] \<and> int (row s) < sint (img_h im)")
    case False
    then show ?thesis using 1(3) by auto
  next
    case True
    show ?thesis
    proof (cases "sl_pos s = 0")
      case z: True
      show ?thesis using True z 1(1) 1(3) by (subst feed.simps) simp
    next
      case nz: False
      show ?thesis
        using True nz 1(2)[OF True nz] 1(3)
        by (subst feed.simps) (simp add: length_cur_copy_in length_cur_complete_row)
    qed
  qed
qed

text \<open>Copying a window in two parts is copying it at once.\<close>

lemma scan_take_short:
  "length xs < img_stride im - (sl_pos s - 1) \<Longrightarrow> scan_take im xs s = length xs"
  by (simp add: scan_take_def)

lemma scan_take_long:
  "\<not> length xs < img_stride im - (sl_pos s - 1) \<Longrightarrow>
   scan_take im (xs @ ys) s = scan_take im xs s \<and>
   scan_take im xs s = img_stride im - (sl_pos s - 1)"
  by (simp add: scan_take_def)

lemma copy_in_long:
  "\<not> length xs < img_stride im - (sl_pos s - 1) \<Longrightarrow> copy_in im (xs @ ys) s = copy_in im xs s"
  by (simp add: copy_in_def scan_take_long Let_def)

lemma complete_row_short:
  "length xs < img_stride im - (sl_pos s - 1) \<Longrightarrow>
   complete_row im (copy_in im xs s) = copy_in im xs s"
  by (simp add: complete_row_def copy_in_def scan_take_short Let_def)

lemma copy_in_twice:
  assumes short: "length xs < img_stride im - (sl_pos s - 1)"
    and len: "length (cur s) = img_stride im"
    and nz: "sl_pos s \<noteq> 0"
  shows "scan_take im (xs @ ys) s = length xs + scan_take im ys (copy_in im xs s)"
    and "copy_in im ys (copy_in im xs s) = copy_in im (xs @ ys) s"
proof -
  define p where "p = sl_pos s - 1"
  define s1 where "s1 = copy_in im xs s"
  define t where "t = scan_take im ys s1"
  have p: "p + length xs < length (cur s)" using short len by (simp add: p_def)
  have s1: "cur s1 = take p (cur s) @ xs @ drop (p + length xs) (cur s)"
    "sl_pos s1 = sl_pos s + length xs"
    using short by (simp_all add: s1_def copy_in_def scan_take_short p_def Let_def)
  have p1: "sl_pos s1 - Suc 0 = p + length xs" using nz s1 by (simp add: p_def)
  have p0: "sl_pos s - Suc 0 = p" by (simp add: p_def)
  show tk: "scan_take im (xs @ ys) s = length xs + scan_take im ys (copy_in im xs s)"
    using short nz s1 by (auto simp: scan_take_def Let_def s1_def[symmetric])
  have a: "take (p + length xs) (cur s1) = take p (cur s) @ xs"
    using p by (simp add: s1)
  have b: "drop (p + length xs + t) (cur s1) = drop (p + length xs + t) (cur s)"
    using p by (simp add: s1 ac_simps)
  have tk': "scan_take im (xs @ ys) s = length xs + t"
    using tk by (simp add: t_def s1_def)
  have e0: "s1 = s\<lparr>cur := take p (cur s) @ xs @ drop (p + length xs) (cur s),
                     sl_pos := sl_pos s + length xs\<rparr>"
    using short by (simp add: s1_def copy_in_def scan_take_short p_def Let_def)
  have e1: "copy_in im ys s1
      = s1\<lparr>cur := take p (cur s) @ xs @ take t ys @ drop (p + length xs + t) (cur s),
            sl_pos := sl_pos s + length xs + t\<rparr>"
    using p1 unfolding s1(2) by (simp add: copy_in_def Let_def a b t_def[symmetric] s1(2))
  have e2: "copy_in im (xs @ ys) s
      = s\<lparr>cur := take p (cur s) @ xs @ take t ys @ drop (p + length xs + t) (cur s),
           sl_pos := sl_pos s + length xs + t\<rparr>"
    by (simp add: copy_in_def Let_def p0 tk' add.assoc)
  show "copy_in im ys (copy_in im xs s) = copy_in im (xs @ ys) s"
    unfolding s1_def[symmetric] e1 e2 by (subst e0) simp
qed

text \<open>The scanline assembler does not depend on how the byte stream is cut into windows.\<close>

lemma feed_append:
  "length (cur s) = img_stride im \<Longrightarrow> feed im (xs @ ys) s = feed im ys (feed im xs s)"
proof (induction im xs s rule: feed.induct)
  case (1 im dp s)
  show ?case
  proof (cases "dp \<noteq> [] \<and> int (row s) < sint (img_h im)")
    case False
    then show ?thesis by auto
  next
    case True
    then obtain b dp' where dp: "dp = b # dp'" by (cases dp) auto
    show ?thesis
    proof (cases "sl_pos s = 0")
      case z: True
      show ?thesis
        using True z 1(1)[OF True z] 1(3) by (simp add: dp feed_filter_byte)
    next
      case nz: False
      show ?thesis
      proof (cases "length dp < img_stride im - (sl_pos s - 1)")
        case long: False
        have "feed im (dp @ ys) s
              = feed im (drop (scan_take im dp s) dp @ ys) (complete_row im (copy_in im dp s))"
          using True nz long
          by (subst feed_body) (simp_all add: copy_in_long scan_take_long scan_take_def)
        also have "\<dots> = feed im ys (feed im (drop (scan_take im dp s) dp)
                                     (complete_row im (copy_in im dp s)))"
          using 1(2)[OF True nz] 1(3)
          by (simp add: length_cur_copy_in length_cur_complete_row)
        also have "\<dots> = feed im ys (feed im dp s)"
          using True nz by (subst (2) feed_body) simp_all
        finally show ?thesis .
      next
        case short: True
        have f1: "feed im dp s = copy_in im dp s"
          using True nz short
          by (subst feed_body) (simp_all add: scan_take_short complete_row_short)
        show ?thesis
        proof (cases "ys = []")
          case True
          then show ?thesis by simp
        next
          case ys: False
          have r: "row (copy_in im dp s) = row s" "sl_pos (copy_in im dp s) \<noteq> 0"
            using nz by (simp_all add: copy_in_def Let_def)
          have "feed im ys (copy_in im dp s)
                = feed im (drop (scan_take im ys (copy_in im dp s)) ys)
                    (complete_row im (copy_in im ys (copy_in im dp s)))"
            using True r ys by (subst feed_body) simp_all
          also have "\<dots> = feed im (drop (scan_take im (dp @ ys) s) (dp @ ys))
                    (complete_row im (copy_in im (dp @ ys) s))"
            using copy_in_twice[OF short 1(3) nz, of ys] by simp
          also have "\<dots> = feed im (dp @ ys) s"
            using True nz by (subst (2) feed_body) simp_all
          finally show ?thesis using f1 by simp
        qed
      qed
    qed
  qed
qed

subsection \<open>The decode loop under the contract\<close>

lemma loop_body_eq:
  assumes "tinfl_decompress e (decomp fs) (in_ptr fs) (dict_ofs fs)
             (ci fs < length ids - 1 \<or> in_ptr fs \<noteq> []) = (st, k, outb, d')"
  shows "loop_body e im ids fs s =
     (st,
      (if drop k (in_ptr fs) = [] \<and> ci fs < length ids - 1
       then \<lparr>decomp = d', ci = ci fs + 1, in_ptr = ids ! (ci fs + 1),
             dict_ofs = (dict_ofs fs + length outb) mod TINFL_LZ_DICT_SIZE\<rparr>
       else \<lparr>decomp = d', ci = ci fs, in_ptr = drop k (in_ptr fs),
             dict_ofs = (dict_ofs fs + length outb) mod TINFL_LZ_DICT_SIZE\<rparr>),
      feed im outb s)"
  using assms by (simp add: loop_body_def Let_def)

text \<open>
  Under the contract the decode loop returns 0 once it has enough fuel, and its final
  state is that of the inner loop run over the whole decompressed stream.
\<close>

lemma decode_loop_run:
  assumes inf: "inflates e zs ds" and zs: "zs = concat ids"
    and len: "length (cur s0) = img_stride im"
  shows "reach e zs (decomp fs) i j \<Longrightarrow> ci fs < length ids \<Longrightarrow>
         drop i zs = in_ptr fs @ concat (drop (Suc (ci fs)) ids) \<Longrightarrow> i \<le> length zs \<Longrightarrow>
         dict_ofs fs = j mod TINFL_LZ_DICT_SIZE \<Longrightarrow> j \<le> length ds \<Longrightarrow>
         s = feed im (take j ds) s0 \<Longrightarrow>
         (length zs - i) + (length ds - j) + (length ids - ci fs) \<le> n \<Longrightarrow>
         decode_loop n e im ids fs s = Some (0, feed im ds s0)"
proof (induction n arbitrary: fs s i j)
  case 0
  then show ?case by simp
next
  case (Suc n)
  note R = Suc.prems(1) and ci = Suc.prems(2) and rest = Suc.prems(3) and i = Suc.prems(4)
    and dofs = Suc.prems(5) and j = Suc.prems(6) and s = Suc.prems(7) and fuel = Suc.prems(8)
  have all: "feed im ds s0 = feed im (drop j ds) s"
    using feed_append[OF len, of "take j ds" "drop j ds"] s by simp
  show ?case
  proof (cases "int (row s) < sint (img_h im)")
    case False
    then show ?thesis using all by simp
  next
    case True
    define hm where "hm = (ci fs < length ids - 1 \<or> in_ptr fs \<noteq> [])"
    define m where "m = length (in_ptr fs)"
    obtain st k outb d' where
      r: "tinfl_decompress e (decomp fs) (in_ptr fs) (dict_ofs fs) hm = (st, k, outb, d')"
      by (metis prod_cases4)
    have slice: "in_ptr fs = take m (drop i zs)" by (simp add: rest m_def)
    have im: "i + m \<le> length zs"
    proof -
      have "m \<le> length (drop i zs)" by (simp add: rest m_def)
      then show ?thesis using i by simp
    qed
    have legal: "\<not> hm \<longrightarrow> i + m = length zs"
    proof
      assume "\<not> hm"
      then have "ci fs = length ids - 1" "in_ptr fs = []"
        using ci by (auto simp: hm_def)
      then have "drop i zs = []" using rest ci by simp
      then show "i + m = length zs" using i \<open>in_ptr fs = []\<close> by (simp add: m_def)
    qed
    have ok: "step_ok ds j m hm (st, k, outb, d')"
      using inf R im legal r unfolding inflates_def slice dofs by metis
    then have k: "k \<le> m" and jo: "j + length outb \<le> length ds"
      and outb: "outb = take (length outb) (drop j ds)"
      and nf: "st \<noteq> StFailed" and dn: "st = StDone \<longrightarrow> j + length outb = length ds"
      and prog: "st \<noteq> StDone \<longrightarrow> 0 < k \<or> outb \<noteq> [] \<or> (m = 0 \<and> hm)"
      by (simp_all add: step_ok_def)
    have R': "reach e zs d' (i + k) (j + length outb)"
      using reach_step[OF R im legal, of st k outb d'] r by (simp add: slice[symmetric] dofs)
    define s' where "s' = feed im outb s"
    have tk: "take (j + length outb) ds = take j ds @ outb"
      using outb by (simp add: take_add)
    have s'': "s' = feed im (take (j + length outb) ds) s0"
      unfolding s'_def s tk using feed_append[OF len] by simp
    define fs' where "fs' =
      (if drop k (in_ptr fs) = [] \<and> ci fs < length ids - 1
       then \<lparr>decomp = d', ci = ci fs + 1, in_ptr = ids ! (ci fs + 1),
             dict_ofs = (dict_ofs fs + length outb) mod TINFL_LZ_DICT_SIZE\<rparr>
       else \<lparr>decomp = d', ci = ci fs, in_ptr = drop k (in_ptr fs),
             dict_ofs = (dict_ofs fs + length outb) mod TINFL_LZ_DICT_SIZE\<rparr>)"
    have lb: "loop_body e im ids fs s = (st, fs', s')"
      using loop_body_eq[OF r[unfolded hm_def]] by (simp add: fs'_def s'_def)
    show ?thesis
    proof (cases "st = StDone")
      case d: True
      then have "s' = feed im ds s0" using dn s'' by simp
      then show ?thesis using True lb d by simp
    next
      case nd: False
      have dk: "drop (i + k) zs = drop k (in_ptr fs) @ concat (drop (Suc (ci fs)) ids)"
      proof -
        have "drop (i + k) zs = drop k (drop i zs)" by (simp add: add.commute)
        then show ?thesis using k by (simp add: rest m_def)
      qed
      have fs'1: "decomp fs' = d'" by (simp add: fs'_def)
      have fs'2: "ci fs' < length ids" using ci by (auto simp: fs'_def)
      have fs'3: "drop (i + k) zs = in_ptr fs' @ concat (drop (Suc (ci fs')) ids)"
      proof (cases "drop k (in_ptr fs) = [] \<and> ci fs < length ids - 1")
        case a: True
        then have "Suc (ci fs) < length ids" by linarith
        then have "drop (Suc (ci fs)) ids = ids ! (Suc (ci fs)) # drop (Suc (Suc (ci fs))) ids"
          by (simp add: Cons_nth_drop_Suc)
        then show ?thesis using a dk by (simp add: fs'_def)
      next
        case False
        then show ?thesis using dk by (auto simp: fs'_def)
      qed
      have fs'4: "i + k \<le> length zs" using k im by simp
      have fs'5: "dict_ofs fs' = (j + length outb) mod TINFL_LZ_DICT_SIZE"
        by (simp add: fs'_def dofs mod_add_left_eq)
      have adv: "m = 0 \<and> hm \<Longrightarrow> ci fs' = ci fs + 1"
        using ci by (auto simp: fs'_def hm_def m_def)
      have stay: "ci fs \<le> ci fs'" by (simp add: fs'_def)
      have fuel': "(length zs - (i + k)) + (length ds - (j + length outb)) + (length ids - ci fs') \<le> n"
      proof -
        from prog nd consider "0 < k" | "outb \<noteq> []" | "m = 0 \<and> hm" by blast
        then show ?thesis
        proof cases
          case 1
          then show ?thesis using fuel fs'4 stay by arith
        next
          case 2
          then have "0 < length outb" by simp
          then show ?thesis using fuel jo stay by arith
        next
          case 3
          then have "ci fs' = ci fs + 1" by (rule adv)
          then show ?thesis using fuel ci by arith
        qed
      qed
      have "decode_loop n e im ids fs' s' = Some (0, feed im ds s0)"
        using Suc.IH[OF _ fs'2 fs'3 fs'4 fs'5 jo s'' fuel'] R' fs'1 by simp
      then show ?thesis using True lb nd nf by simp
    qed
  qed
qed

subsection \<open>Decoding an accepted image\<close>

lemma sint_small:
  assumes "unat (h :: u32) < 2 ^ 31"
  shows "sint h = int (unat h)"
proof -
  from assms have "int (unat h) < int (2 ^ 31)" by (simp only: of_nat_less_iff)
  then have "uint h < 2 ^ 31" by simp
  moreover have "- (2 ^ 31) \<le> (0 :: int)" by simp
  then have "- (2 ^ 31) \<le> uint h"
    using uint_ge_0 [of h] by (rule order_trans)
  ultimately have "signed_take_bit 31 (uint h) = uint h"
    by (intro signed_take_bit_int_eq_self) simp_all
  then show ?thesis
    by (simp add: sint_uint)
qed

lemma sint_stride:
  assumes "unat (w :: u32) * b < 2 ^ 31"
  shows "sint (w * word_of_nat b) = int (unat w * b)"
proof -
  have e: "w * word_of_nat b = (word_of_nat (unat w * b) :: u32)" by simp
  have "unat (word_of_nat (unat w * b) :: u32) = unat w * b"
    using assms by (simp add: unat_of_nat del: of_nat_mult)
  then show ?thesis
    unfolding e using assms sint_small[of "word_of_nat (unat w * b)"] by simp
qed

lemma accepted_bpp:
  assumes "header_ok png scale"
  shows "bpp_of (ihdr_ctype png) (unat (ihdr_depth png) div 8) = Some (png_bpp png)"
proof -
  have "ihdr_ctype png \<in> {0, 2, 3, 4, 6}" using assms by (simp add: header_ok_def)
  then show ?thesis
    by (auto simp: png_bpp_def png_bpc_def bpp_of_def)
qed

lemma sped_decode_accepted:
  assumes h: "header_ok png scale" and a: "alloc_ok e" and ne: "idat (scanned e png) \<noteq> []"
  shows "sped_decode fuel e png scale =
     (case decode_loop fuel e (image_of e png scale) (idat (scanned e png))
             \<lparr>decomp = tinfl_init e, ci = 0, in_ptr = idat (scanned e png) ! 0, dict_ofs = 0\<rparr>
             (init_state png scale) of
        None \<Rightarrow> None
      | Some (rc, s) \<Rightarrow> Some (rc, calls s))"
proof -
  have stride: "sint (ihdr_w png * word_of_nat (png_bpp png)) = int (png_stride png)"
    using h by (simp only: header_ok_def png_stride_def sint_stride)
  have w: "ihdr_w png \<noteq> 0" "ihdr_h png \<noteq> 0"
    using h by (auto simp: header_ok_def)
  have hdr: "\<not> (scale \<noteq> 1 \<and> scale \<noteq> 2 \<and> scale \<noteq> 4)"
    "\<not> (length png < 33 \<or> bytes_at png 0 8 \<noteq> png_sig)"
    "\<not> (r32 png 8 \<noteq> 13 \<or> bytes_at png 12 4 \<noteq> tag_IHDR)"
    "\<not> ihdr_compression png \<noteq> 0" "\<not> ihdr_filter png \<noteq> 0" "\<not> ihdr_interlace png \<noteq> 0"
    "\<not> (ihdr_depth png \<noteq> 8 \<and> ihdr_depth png \<noteq> 16)"
    "\<not> (ihdr_depth png = 16 \<and> ihdr_ctype png = 3)"
    "\<not> (ihdr_w png = 0 \<or> ihdr_h png = 0)"
    "\<not> (unat (ihdr_w png) div nat scale = 0 \<or> unat (ihdr_h png) div nat scale = 0)"
    using h w by (auto simp: header_ok_def)
  have rest: "length (idat (scanned e png)) \<noteq> 0" "\<not> (int (png_stride png) < 0 \<or> \<not> alloc_ok e)"
    using a ne by auto
  have "sped_decode fuel e png scale
        = decode_image fuel e png scale (png_bpc png) (png_bpp png) (int (png_stride png))"
    unfolding sped_decode_def Let_def accepted_bpp[OF h] stride
    by (simp only: hdr if_False option.case png_bpc_def stride)
  also have "\<dots> = (case decode_loop fuel e (image_of e png scale) (idat (scanned e png))
             \<lparr>decomp = tinfl_init e, ci = 0, in_ptr = idat (scanned e png) ! 0, dict_ofs = 0\<rparr>
             (init_state png scale) of
        None \<Rightarrow> None
      | Some (rc, s) \<Rightarrow> Some (rc, calls s))"
    unfolding decode_image_def Let_def scanned_def[symmetric]
    by (simp only: rest if_False image_of_def init_state_def nat_int)
  finally show ?thesis .
qed

lemma sped_decode_decodable:
  assumes d: "decodable e png scale ds"
  shows "sped_decode fuel e png scale =
     (case decode_loop fuel e (image_of e png scale) (idat (scanned e png))
             \<lparr>decomp = tinfl_init e, ci = 0, in_ptr = idat (scanned e png) ! 0, dict_ofs = 0\<rparr>
             (init_state png scale) of
        None \<Rightarrow> None
      | Some (rc, s) \<Rightarrow> Some (rc, calls s))"
  using d by (intro sped_decode_accepted) (simp_all add: decodable_def)

text \<open>
  The result of decoding under the contract: return code 0, and the callbacks of the
  scanline assembler run over the decompressed stream.
\<close>

lemma sped_decode_run:
  assumes d: "decodable e png scale ds"
    and fuel: "length (concat (idat (scanned e png))) + length ds + length (idat (scanned e png)) \<le> fuel"
  shows "sped_decode fuel e png scale
         = Some (0, calls (feed (image_of e png scale) ds (init_state png scale)))"
proof -
  let ?ids = "idat (scanned e png)"
  let ?fs = "\<lparr>decomp = tinfl_init e, ci = 0, in_ptr = ?ids ! 0, dict_ofs = 0\<rparr>"
  have inf: "inflates e (concat ?ids) ds" and ne: "?ids \<noteq> []"
    using d by (simp_all add: decodable_def)
  have len: "length (cur (init_state png scale)) = img_stride (image_of e png scale)"
    by (simp add: init_state_def image_of_def)
  have c: "concat ?ids = ?ids ! 0 @ concat (drop (Suc 0) ?ids)"
    using ne by (cases ?ids) simp_all
  have "decode_loop fuel e (image_of e png scale) ?ids ?fs (init_state png scale)
        = Some (0, feed (image_of e png scale) ds (init_state png scale))"
    using ne fuel c
    by (intro decode_loop_run[OF inf refl len, where i = 0 and j = 0])
       (simp_all add: reach_init)
  then show ?thesis
    by (simp add: sped_decode_decodable[OF d])
qed

subsection \<open>The stored-block decompressor meets the contract\<close>

lemma dict_space: "0 < TINFL_LZ_DICT_SIZE - j mod TINFL_LZ_DICT_SIZE"
  by (simp add: TINFL_LZ_DICT_SIZE_def)

lemma unat_length_byte: "n < 256 \<Longrightarrow> unat (word_of_nat n :: u8) = n"
  by (simp add: unat_of_nat)

lemma stored_body_result:
  assumes "stored_body r inp space hm c = (st, k, outb, d')"
  defines "m \<equiv> min r (min (length inp) space)"
  shows "k = c + m" "outb = take m inp" "d' = Body (r - m)" "(st = StDone) = (m = r)"
    "st = StFailed \<Longrightarrow> \<not> hm \<and> m \<noteq> r \<and> m \<noteq> space"
  using assms by (auto simp: stored_body_def Let_def split: if_splits)

lemma stored_header_empty:
  "stored_decompress Header [] dofs hm = (if hm then StNeedsMoreInput else StFailed, 0, [], Header)"
  by (simp add: stored_decompress_def)

lemma stored_header_cons:
  "stored_decompress Header (b # rest) dofs hm
     = stored_body (unat b) rest (TINFL_LZ_DICT_SIZE - dofs) hm 1"
  by (simp add: stored_decompress_def)

lemma stored_body_step:
  "stored_decompress (Body r) inp dofs hm = stored_body r inp (TINFL_LZ_DICT_SIZE - dofs) hm 0"
  by (simp add: stored_decompress_def)

lemma stored_env_sel [simp]:
  "tinfl_decompress stored_env = stored_decompress" "tinfl_init stored_env = Header"
  "alloc_ok stored_env"
  by (simp_all add: stored_env_def)

lemma reach_stored:
  assumes "reach stored_env (word_of_nat (length ds) # ds) d i j" "length ds < 256"
  shows "(d = Header \<and> i = 0 \<and> j = 0) \<or> (d = Body (length ds - j) \<and> i = Suc j \<and> j \<le> length ds)"
  using assms
proof (induction rule: reach.induct)
  case reach_init
  then show ?case by simp
next
  case (reach_step d i j n hm st k outb d')
  let ?sp = "TINFL_LZ_DICT_SIZE - j mod TINFL_LZ_DICT_SIZE"
  note call = reach_step.hyps(4)[unfolded stored_env_sel]
  from reach_step.IH[OF reach_step.prems] show ?case
  proof
    assume h: "d = Header \<and> i = 0 \<and> j = 0"
    show ?thesis
    proof (cases n)
      case 0
      then show ?thesis using call h by (simp add: stored_header_empty)
    next
      case (Suc m)
      have c: "stored_body (length ds) (take m ds) ?sp hm 1 = (st, k, outb, d')"
        using call h Suc reach_step.prems
        by (simp add: stored_header_cons unat_length_byte)
      define q where "q = min (length ds) (min (length (take m ds)) ?sp)"
      have "k = 1 + q" "outb = take q (take m ds)" "d' = Body (length ds - q)"
        using stored_body_result(1-3)[OF c] by (simp_all add: q_def)
      moreover have "q \<le> length ds" "q \<le> m" by (simp_all add: q_def)
      ultimately show ?thesis using h by simp
    qed
  next
    assume b: "d = Body (length ds - j) \<and> i = Suc j \<and> j \<le> length ds"
    have c: "stored_body (length ds - j) (take n (drop j ds)) ?sp hm 0 = (st, k, outb, d')"
      using call b by (simp add: stored_body_step)
    define q where "q = min (length ds - j) (min (length (take n (drop j ds))) ?sp)"
    have "k = q" "outb = take q (take n (drop j ds))" "d' = Body (length ds - j - q)"
      using stored_body_result(1-3)[OF c] by (simp_all add: q_def)
    moreover have "q \<le> length ds - j" "q \<le> n" by (simp_all add: q_def)
    moreover from this b have "j + q \<le> length ds" by linarith
    ultimately show ?thesis using b by simp
  qed
qed

lemma stored_inflates:
  assumes len: "length ds < 256"
  shows "inflates stored_env (word_of_nat (length ds) # ds) ds"
  unfolding inflates_def
proof (intro allI impI)
  fix d i j n hm
  assume r: "reach stored_env (word_of_nat (length ds) # ds) d i j"
    and n: "i + n \<le> length (word_of_nat (length ds) # ds)"
    and hm: "\<not> hm \<longrightarrow> i + n = length (word_of_nat (length ds) # ds)"
  let ?sp = "TINFL_LZ_DICT_SIZE - j mod TINFL_LZ_DICT_SIZE"
  have sp: "0 < ?sp" by (rule dict_space)
  obtain st k outb d' where
    call: "stored_decompress d (take n (drop i (word_of_nat (length ds) # ds)))
             (j mod TINFL_LZ_DICT_SIZE) hm = (st, k, outb, d')"
    by (metis prod_cases4)
  have "step_ok ds j n hm (st, k, outb, d')"
    using reach_stored[OF r len]
  proof
    assume h: "d = Header \<and> i = 0 \<and> j = 0"
    show ?thesis
    proof (cases n)
      case 0
      then show ?thesis using h hm call
        by (auto simp: stored_header_empty step_ok_def)
    next
      case (Suc m)
      have c: "stored_body (length ds) (take m ds) ?sp hm 1 = (st, k, outb, d')"
        using call h Suc len by (simp add: stored_header_cons unat_length_byte)
      define q where "q = min (length ds) (min (length (take m ds)) ?sp)"
      note res = stored_body_result[OF c, folded q_def]
      have m: "m \<le> length ds" using n h Suc by simp
      have q: "q \<le> length ds" "q \<le> m" by (simp_all add: q_def)
      have nf: "st \<noteq> StFailed"
      proof
        assume "st = StFailed"
        then have f: "\<not> hm" "q \<noteq> length ds" "q \<noteq> ?sp" using res(5) by simp_all
        then have "m = length ds" using hm h Suc by simp
        then show False using f by (simp add: q_def min_def split: if_splits)
      qed
      show ?thesis
        using res(1,2,4) q nf h Suc by (simp add: step_ok_def min_absorb1)
    qed
  next
    assume b: "d = Body (length ds - j) \<and> i = Suc j \<and> j \<le> length ds"
    have c: "stored_body (length ds - j) (take n (drop j ds)) ?sp hm 0 = (st, k, outb, d')"
      using call b by (simp add: stored_body_step)
    define q where "q = min (length ds - j) (min (length (take n (drop j ds))) ?sp)"
    note res = stored_body_result[OF c, folded q_def]
    have nn: "n \<le> length ds - j" using n b by simp
    have q: "q \<le> length ds - j" "q \<le> n" "q = min n ?sp"
      using nn by (simp_all add: q_def)
    have nf: "st \<noteq> StFailed"
    proof
      assume "st = StFailed"
      then have f: "\<not> hm" "q \<noteq> length ds - j" "q \<noteq> ?sp" using res(5) by simp_all
      then have "n = length ds - j" using hm b by simp
      then show False using f q(3) by (simp add: min_def split: if_splits)
    qed
    have prog: "st \<noteq> StDone \<longrightarrow> 0 < k \<or> outb \<noteq> [] \<or> (n = 0 \<and> hm)"
    proof (intro impI)
      assume nd: "st \<noteq> StDone"
      show "0 < k \<or> outb \<noteq> [] \<or> (n = 0 \<and> hm)"
      proof (cases "q = 0")
        case False
        then show ?thesis using res(1) by simp
      next
        case True
        then have n0: "n = 0" using q(3) sp by (simp add: min_def split: if_splits)
        have "length ds - j \<noteq> 0" using nd res(4) True by simp
        then have "hm" using hm b n0 by auto
        then show ?thesis using n0 by simp
      qed
    qed
    have jq: "j + q \<le> length ds" using q(1) b by linarith
    have lo: "length outb = q" using res(2) q(1,2) by simp
    have "k \<le> n" using res(1) q(2) by simp
    moreover have "j + length outb \<le> length ds" using jq lo by simp
    moreover have "outb = take (length outb) (drop j ds)"
      using res(2) q(2) unfolding lo by (simp add: min_absorb1)
    moreover have "st = StDone \<longrightarrow> j + length outb = length ds"
      using res(4) lo b by auto
    ultimately show ?thesis
      using nf prog unfolding step_ok_def prod.case by blast
  qed
  then show "step_ok ds j n hm
          (tinfl_decompress stored_env d (take n (drop i (word_of_nat (length ds) # ds)))
             (j mod TINFL_LZ_DICT_SIZE) hm)"
    using call by simp
qed

subsection \<open>The downscale accumulator\<close>

lemma chan_le: "chan c px \<le> 255"
proof -
  obtain r g b where px: "px = (r, g, b)" by (cases px) auto
  have "unat r < 256" "unat g < 256" "unat b < 256" by (rule unat_u8_bound)+
  then show ?thesis by (simp add: chan_def px)
qed

lemma length_acc_step [simp]: "length (acc_step im c x a) = length a"
  by (simp add: acc_step_def Let_def split: prod.splits)

lemma acc_step_nth:
  assumes "x div img_scale im * 3 + 2 < length a" "i < length a"
  shows "acc_step im c x a ! i =
           a ! i + (if i div 3 = x div img_scale im
                    then word_of_nat (chan (i mod 3)
                           (get_pixel c x (img_ctype im) (img_bpc im) (img_pal im)))
                    else 0)"
proof -
  obtain r g b where px: "get_pixel c x (img_ctype im) (img_bpc im) (img_pal im) = (r, g, b)"
    by (metis prod_cases3)
  define ox where "ox = x div img_scale im"
  have len: "ox * 3 + 2 < length a" using assms(1) by (simp add: ox_def)
  have step: "acc_step im c x a =
      a[ox * 3 := a ! (ox * 3) + ucast r, ox * 3 + 1 := a ! (ox * 3 + 1) + ucast g,
        ox * 3 + 2 := a ! (ox * 3 + 2) + ucast b]"
    using len by (simp add: acc_step_def px ox_def Let_def)
  have "i = ox * 3 \<or> i = ox * 3 + 1 \<or> i = ox * 3 + 2 \<or> i div 3 \<noteq> ox"
    by presburger
  then consider "i = ox * 3" | "i = ox * 3 + 1" | "i = ox * 3 + 2" | "i div 3 \<noteq> ox"
    by blast
  then show ?thesis
  proof cases
    case 1
    then have "i div 3 = ox" "i mod 3 = 0" by presburger+
    then show ?thesis using len 1 unfolding step px ox_def[symmetric]
      by (simp add: chan_def)
  next
    case 2
    then have "i div 3 = ox" "i mod 3 = 1" by presburger+
    then show ?thesis using len 2 unfolding step px ox_def[symmetric]
      by (simp add: chan_def)
  next
    case 3
    then have "i div 3 = ox" "i mod 3 = 2" by presburger+
    then show ?thesis using len 3 unfolding step px ox_def[symmetric]
      by (simp add: chan_def)
  next
    case 4
    then have "i \<noteq> ox * 3" "i \<noteq> ox * 3 + 1" "i \<noteq> ox * 3 + 2" by auto
    then show ?thesis using 4 unfolding step px ox_def[symmetric]
      by simp
  qed
qed

text \<open>The accumulation loop after \<open>m\<close> columns.\<close>

lemma acc_fold_nth:
  assumes sc: "0 < img_scale im" and len: "length a = img_out_w im * 3"
    and m: "m \<le> img_out_w im * img_scale im" and i: "i < length a"
  shows "length (fold (acc_step im c) [0..<m] a) = length a \<and>
         fold (acc_step im c) [0..<m] a ! i = a ! i + word_of_nat (row_sum im c m i)"
  using m
proof (induction m)
  case 0
  show ?case by (simp add: row_sum_def)
next
  case (Suc m)
  let ?a = "fold (acc_step im c) [0..<m] a"
  have IH: "length ?a = length a" "?a ! i = a ! i + word_of_nat (row_sum im c m i)"
    using Suc by simp_all
  have "m div img_scale im < img_out_w im"
    using Suc.prems sc by (simp add: div_less_iff_less_mult)
  then have ix: "m div img_scale im * 3 + 2 < length ?a"
    using IH(1) len by simp
  have "fold (acc_step im c) [0..<Suc m] a ! i = acc_step im c m ?a ! i" by simp
  also have "\<dots> = a ! i + word_of_nat (row_sum im c (Suc m) i)"
    using i IH by (subst acc_step_nth[OF ix]) (simp_all add: row_sum_def)
  finally show ?case using IH(1) by simp
qed

lemma accumulate_nth:
  assumes sc: "0 < img_scale im" and len: "length a = img_out_w im * 3"
    and w: "img_out_w im * img_scale im \<le> unat (img_w im)" and i: "i < length a"
  shows "length (accumulate im c a) = length a"
    and "accumulate im c a ! i =
           a ! i + word_of_nat (row_sum im c (img_out_w im * img_scale im) i)"
  using acc_fold_nth[OF sc len order_refl i, of c] w
  by (simp_all add: accumulate_def Let_def min_absorb1)

text \<open>A lane collects the columns of its block.\<close>

lemma row_sum_block:
  assumes sc: "0 < img_scale im" and ox: "ox < img_out_w im" and j: "ch < 3"
  shows "row_sum im c (img_out_w im * img_scale im) (ox * 3 + ch) =
         (\<Sum>x = ox * img_scale im..<ox * img_scale im + img_scale im.
            chan ch (get_pixel c x (img_ctype im) (img_bpc im) (img_pal im)))"
proof -
  let ?s = "img_scale im"
  have d: "(ox * 3 + ch) div 3 = ox" "(ox * 3 + ch) mod 3 = ch" using j by simp_all
  have set: "{x. x < img_out_w im * ?s \<and> x div ?s = ox} = {ox * ?s..<ox * ?s + ?s}"
  proof (intro set_eqI iffI)
    fix x assume "x \<in> {x. x < img_out_w im * ?s \<and> x div ?s = ox}"
    then have "x div ?s = ox" by simp
    then have "ox * ?s \<le> x" "x < ox * ?s + ?s"
      using sc div_times_less_eq_dividend[of x ?s] dividend_less_div_times[of ?s x]
      by (simp_all add: ac_simps)
    then show "x \<in> {ox * ?s..<ox * ?s + ?s}" by simp
  next
    fix x assume "x \<in> {ox * ?s..<ox * ?s + ?s}"
    then have b: "ox * ?s \<le> x" "x < (ox + 1) * ?s" by simp_all
    then have "x div ?s = ox"
      by (intro div_nat_eqI) (simp_all add: ac_simps)
    moreover have "(ox + 1) * ?s \<le> img_out_w im * ?s"
      using ox by (intro mult_le_mono1) simp
    ultimately show "x \<in> {x. x < img_out_w im * ?s \<and> x div ?s = ox}" using b by simp
  qed
  show ?thesis
    unfolding row_sum_def d
    by (subst sum.inter_filter[symmetric]) (simp_all add: set)
qed

subsection \<open>Whole scanlines\<close>

lemma process_row_sl_pos [simp]: "process_row im (s\<lparr>sl_pos := p\<rparr>) = process_row im s"
  by (simp add: process_row_def Let_def)

text \<open>One whole scanline, filter byte and body, completes a row.\<close>

lemma feed_scanline:
  assumes "int (row s) < sint (img_h im)" "sl_pos s = 0" "length (cur s) = img_stride im"
    "length b = img_stride im" "0 < img_stride im"
  shows "feed im (f # b) s = process_row im (s\<lparr>filter := f, cur := b\<rparr>)"
proof -
  let ?s1 = "s\<lparr>filter := f, sl_pos := Suc 0\<rparr>"
  have t: "scan_take im b ?s1 = img_stride im"
    using assms by (simp add: scan_take_def)
  have c: "copy_in im b ?s1 = s\<lparr>filter := f, cur := b, sl_pos := Suc (img_stride im)\<rparr>"
    using assms by (simp add: copy_in_def t Let_def)
  have "feed im (f # b) s = feed im b ?s1"
    using assms by (simp add: feed_filter_byte)
  also have "\<dots> = feed im (drop (scan_take im b ?s1) b) (complete_row im (copy_in im b ?s1))"
    using assms by (intro feed_body) auto
  also have "\<dots> = process_row im (s\<lparr>filter := f, cur := b\<rparr>)"
    using assms by (simp add: t c complete_row_def)
  finally show ?thesis .
qed

text \<open>An incomplete scanline changes neither the rows nor the accumulator.\<close>

lemma feed_partial:
  assumes "sl_pos s = 0" "length (cur s) = img_stride im" "length xs \<le> img_stride im"
  shows "calls (feed im xs s) = calls s \<and> acc (feed im xs s) = acc s \<and>
         row (feed im xs s) = row s"
proof (cases "xs = [] \<or> \<not> int (row s) < sint (img_h im)")
  case True
  then show ?thesis by auto
next
  case False
  then obtain f b where xs: "xs = f # b" by (cases xs) auto
  let ?s1 = "s\<lparr>filter := f, sl_pos := Suc 0\<rparr>"
  have 1: "feed im xs s = feed im b ?s1"
    using False assms by (simp add: xs feed_filter_byte)
  show ?thesis
  proof (cases "b = []")
    case True
    then show ?thesis using 1 by simp
  next
    case b: False
    have short: "length b < img_stride im - (sl_pos ?s1 - 1)"
      using assms xs by simp
    have "feed im b ?s1 = copy_in im b ?s1"
      using False b short
      by (subst feed_body) (simp_all add: scan_take_short complete_row_short)
    then show ?thesis using 1 by (simp add: copy_in_def Let_def)
  qed
qed

subsection \<open>Rows\<close>

lemma unat_of_nat_u16: "n < 65536 \<Longrightarrow> unat (word_of_nat n :: u16) = n"
  by (simp add: unat_of_nat)

lemma row_sum_le: "row_sum im c m i \<le> 255 * card {x. x < m \<and> x div img_scale im = i div 3}"
proof -
  have "row_sum im c m i =
        (\<Sum>x | x < m \<and> x div img_scale im = i div 3.
            chan (i mod 3) (get_pixel c x (img_ctype im) (img_bpc im) (img_pal im)))"
    unfolding row_sum_def by (subst sum.inter_filter[symmetric]) simp_all
  also have "\<dots> \<le> (\<Sum>x | x < m \<and> x div img_scale im = i div 3. 255)"
    by (intro sum_mono chan_le)
  finally show ?thesis by simp
qed

lemma expected_calls_full:
  "img_scale im = 1 \<Longrightarrow> expected_calls im ds (Suc k) = expected_calls im ds k @ [full_row im ds k]"
  by (simp add: expected_calls_def)

lemma process_row_full:
  assumes "img_scale im = 1"
  shows "process_row im ((state_after im ds k)\<lparr>filter := filter_byte im ds k, cur := body im ds k\<rparr>)
         = state_after im ds (Suc k)"
  using assms
  by (simp add: process_row_def state_after_def Let_def expected_calls_full full_row_def src_rgb_def)

lemma length_acc_fold [simp]: "length (fold (acc_step im c) xs a) = length a"
  by (induction xs arbitrary: a) simp_all

lemma length_accumulate [simp]: "length (accumulate im c a) = length a"
  by (simp add: accumulate_def Let_def)

lemma accumulate_lanes:
  assumes sc: "0 < img_scale im"
    and w: "img_out_w im * img_scale im \<le> unat (img_w im)"
  shows "accumulate im c (map (\<lambda>i. word_of_nat (P i)) [0..<img_out_w im * 3])
         = map (\<lambda>i. word_of_nat (P i + row_sum im c (img_out_w im * img_scale im) i))
             [0..<img_out_w im * 3]"
proof (rule nth_equalityI)
  show "length (accumulate im c (map (\<lambda>i. word_of_nat (P i)) [0..<img_out_w im * 3]))
        = length (map (\<lambda>i. word_of_nat (P i + row_sum im c (img_out_w im * img_scale im) i))
             [0..<img_out_w im * 3])"
    by simp
next
  fix i
  assume "i < length (accumulate im c (map (\<lambda>i. word_of_nat (P i)) [0..<img_out_w im * 3]))"
  then have i: "i < img_out_w im * 3" by simp
  then show "accumulate im c (map (\<lambda>i. word_of_nat (P i)) [0..<img_out_w im * 3]) ! i
        = map (\<lambda>i. word_of_nat (P i + row_sum im c (img_out_w im * img_scale im) i))
             [0..<img_out_w im * 3] ! i"
    using accumulate_nth(2)[OF sc _ w, of "map (\<lambda>i. word_of_nat (P i)) [0..<img_out_w im * 3]" i c]
    by simp
qed

lemma part_sum_keep:
  assumes "0 < img_scale im" "Suc (k mod img_scale im) \<noteq> img_scale im"
  shows "part_sum im ds (Suc k) i =
         part_sum im ds k i + row_sum im (recon im ds (Suc k)) (img_out_w im * img_scale im) i"
proof -
  have m: "Suc k mod img_scale im = Suc (k mod img_scale im)"
    using assms by (simp add: mod_Suc)
  have "k mod img_scale im \<le> k" by simp
  then have r0: "Suc k - Suc k mod img_scale im = k - k mod img_scale im"
    unfolding m by simp
  have le: "k - k mod img_scale im \<le> k" by simp
  show ?thesis
    unfolding part_sum_def r0 by (rule sum.atLeastLessThan_Suc[OF le])
qed

lemma part_sum_emit:
  assumes "Suc (k mod img_scale im) = img_scale im"
  shows "part_sum im ds (Suc k) i = 0"
proof -
  have "Suc k mod img_scale im = 0" using assms by (simp add: mod_Suc)
  then show ?thesis by (simp add: part_sum_def)
qed

lemma block_rows:
  assumes "Suc (k mod img_scale im) = img_scale im"
  shows "k - k mod img_scale im = k div img_scale im * img_scale im"
    and "Suc k = k div img_scale im * img_scale im + img_scale im"
proof -
  have "k = k div img_scale im * img_scale im + k mod img_scale im" by simp
  then show "k - k mod img_scale im = k div img_scale im * img_scale im"
    by (metis add_diff_cancel_right')
  show "Suc k = k div img_scale im * img_scale im + img_scale im"
    using assms by (metis add_Suc_right div_mult_mod_eq)
qed

lemma part_sum_block:
  assumes sc: "0 < img_scale im" and e: "Suc (k mod img_scale im) = img_scale im"
    and ox: "ox < img_out_w im" and ch: "ch < 3"
  shows "part_sum im ds k (ox * 3 + ch) +
           row_sum im (recon im ds (Suc k)) (img_out_w im * img_scale im) (ox * 3 + ch)
         = block_sum im ds (k div img_scale im) ox ch"
proof -
  have le: "k - k mod img_scale im \<le> k" by simp
  have "part_sum im ds k (ox * 3 + ch) +
           row_sum im (recon im ds (Suc k)) (img_out_w im * img_scale im) (ox * 3 + ch)
        = (\<Sum>r = k - k mod img_scale im..<Suc k.
             row_sum im (recon im ds (Suc r)) (img_out_w im * img_scale im) (ox * 3 + ch))"
    unfolding part_sum_def by (rule sum.atLeastLessThan_Suc[OF le, symmetric])
  also have "\<dots> = block_sum im ds (k div img_scale im) ox ch"
    unfolding block_rows(1)[OF e] block_sum_def src_rgb_def row_sum_block[OF sc ox ch]
    using block_rows(2)[OF e] by simp
  finally show ?thesis .
qed

lemma block_sum_le: "block_sum im ds oy ox ch \<le> img_scale im * img_scale im * 255"
proof -
  have "block_sum im ds oy ox ch
        \<le> (\<Sum>r = oy * img_scale im..<oy * img_scale im + img_scale im.
             \<Sum>x = ox * img_scale im..<ox * img_scale im + img_scale im. 255)"
    unfolding block_sum_def by (intro sum_mono chan_le)
  then show ?thesis by simp
qed

lemma block_sum_u16:
  assumes "img_scale im \<le> 16"
  shows "block_sum im ds oy ox ch < 65536"
proof -
  have "img_scale im * img_scale im \<le> 16 * 16" using assms by (intro mult_mono) simp_all
  then have "img_scale im * img_scale im * 255 \<le> 16 * 16 * 255" by simp
  then show ?thesis using block_sum_le[of im ds oy ox ch] by linarith
qed

lemma expected_calls_scaled:
  assumes "img_scale im \<noteq> 1" "0 < img_scale im"
  shows "expected_calls im ds (Suc k) =
         (if Suc (k mod img_scale im) = img_scale im
          then expected_calls im ds k @ [scaled_row im ds (k div img_scale im)]
          else expected_calls im ds k)"
  using assms by (simp add: expected_calls_def div_Suc mod_Suc)

lemma avg_lanes:
  assumes ox: "ox < n" and b: "\<And>ch. ch < 3 \<Longrightarrow> P (ox * 3 + ch) < 65536"
  shows "avg_pixel dv (map (\<lambda>i. word_of_nat (P i)) [0..<n * 3]) ox
         = (word_of_nat (P (ox * 3 + 0) div dv), word_of_nat (P (ox * 3 + 1) div dv),
            word_of_nat (P (ox * 3 + 2) div dv))"
proof -
  have nth: "map (\<lambda>i. word_of_nat (P i) :: u16) [0..<n * 3] ! (ox * 3 + ch) = word_of_nat (P (ox * 3 + ch))"
    if "ch < 3" for ch
    using ox that by simp
  show ?thesis
    unfolding avg_pixel_def
    using nth[of 0] nth[of 1] nth[of 2] b[of 0] b[of 1] b[of 2]
    by (simp add: unat_of_nat_u16)
qed

lemma process_row_scaled:
  assumes sc: "1 < img_scale im" "img_scale im \<le> 16"
    and w: "img_out_w im * img_scale im \<le> unat (img_w im)"
  shows "process_row im ((state_after im ds k)\<lparr>filter := filter_byte im ds k, cur := body im ds k\<rparr>)
         = state_after im ds (Suc k)"
proof -
  have sc0: "0 < img_scale im" "img_scale im \<noteq> 1" using sc by simp_all
  let ?s = "(state_after im ds k)\<lparr>filter := filter_byte im ds k, cur := body im ds k\<rparr>"
  define c where "c = recon im ds (Suc k)"
  define P where "P = (\<lambda>i. part_sum im ds k i + row_sum im c (img_out_w im * img_scale im) i)"
  define a where "a = map (\<lambda>i. word_of_nat (P i) :: u16) [0..<img_out_w im * 3]"
  have c: "unfilter (filter_byte im ds k) (img_bpp im) (img_stride im) (recon im ds k)
             (body im ds k) = c"
    by (simp add: c_def)
  have a: "accumulate im c (map (\<lambda>i. word_of_nat (part_sum im ds k i)) [0..<img_out_w im * 3]) = a"
    using accumulate_lanes[OF sc0(1) w, of c "part_sum im ds k"]
    by (simp add: a_def P_def)
  have cond: "(k mod img_scale im = img_scale im - Suc 0) = (Suc (k mod img_scale im) = img_scale im)"
    using sc0 by auto
  show ?thesis
  proof (cases "Suc (k mod img_scale im) = img_scale im")
    case True
    have blk: "P (ox * 3 + ch) = block_sum im ds (k div img_scale im) ox ch"
      if "ox < img_out_w im" "ch < 3" for ox ch
      unfolding P_def c_def by (rule part_sum_block[OF sc0(1) True that])
    have avg: "avg_pixel (img_scale im * img_scale im) a ox = block_avg im ds (k div img_scale im) ox"
      if "ox < img_out_w im" for ox
    proof -
      have "avg_pixel (img_scale im * img_scale im) a ox
            = (word_of_nat (P (ox * 3 + 0) div (img_scale im * img_scale im)),
               word_of_nat (P (ox * 3 + 1) div (img_scale im * img_scale im)),
               word_of_nat (P (ox * 3 + 2) div (img_scale im * img_scale im)))"
        unfolding a_def
        by (rule avg_lanes[OF that]) (simp add: blk[OF that] block_sum_u16[OF sc(2)])
      then show ?thesis
        unfolding block_avg_def blk[OF that, of 0, simplified] blk[OF that, of 1, simplified]
          blk[OF that, of 2, simplified]
        using blk[OF that, of 0] blk[OF that, of 1] blk[OF that, of 2] by simp
    qed
    have px: "map (\<lambda>ox. pack565 (avg_pixel (img_scale im * img_scale im) a ox)) [0..<img_out_w im]
              = map (\<lambda>ox. pack565 (block_avg im ds (k div img_scale im) ox)) [0..<img_out_w im]"
      by (rule map_cong[OF refl]) (simp add: avg)
    have z: "map (\<lambda>i. word_of_nat (part_sum im ds (Suc k) i) :: u16) [0..<img_out_w im * 3]
             = replicate (img_out_w im * 3) 0"
      by (simp add: part_sum_emit[OF True] map_replicate_const)
    have d: "Suc k div img_scale im = Suc (k div img_scale im)"
      using True by (simp add: div_Suc mod_Suc)
    have "process_row im ?s =
        \<lparr>cur = replicate (img_stride im) 0, prev = c, acc = replicate (img_out_w im * 3) 0,
         sl_pos = 0, filter = filter_byte im ds k, row = Suc k,
         out_row = Suc (k div img_scale im),
         calls = expected_calls im ds k @ [scaled_row im ds (k div img_scale im)]\<rparr>"
      using True sc0
      by (simp add: process_row_def Let_def state_after_def c a cond px scaled_row_def
          del: recon.simps)
    also have "\<dots> = state_after im ds (Suc k)"
      using True sc0 by (simp add: state_after_def z d expected_calls_scaled c_def del: recon.simps)
    finally show ?thesis .
  next
    case False
    have d: "Suc k div img_scale im = k div img_scale im"
      using False sc0 by (simp add: div_Suc mod_Suc)
    have p: "map (\<lambda>i. word_of_nat (part_sum im ds (Suc k) i) :: u16) [0..<img_out_w im * 3] = a"
      unfolding a_def P_def c_def
      by (rule map_cong[OF refl]) (simp only: part_sum_keep[OF sc0(1) False])
    have "process_row im ?s =
        \<lparr>cur = replicate (img_stride im) 0, prev = c, acc = a,
         sl_pos = 0, filter = filter_byte im ds k, row = Suc k,
         out_row = k div img_scale im, calls = expected_calls im ds k\<rparr>"
      using False sc0
      by (simp add: process_row_def Let_def state_after_def c a cond del: recon.simps)
    also have "\<dots> = state_after im ds (Suc k)"
      using False sc0 by (simp add: state_after_def p d expected_calls_scaled c_def del: recon.simps)
    finally show ?thesis .
  qed
qed

lemma process_row_state_after:
  assumes "img_scale im = 1 \<or>
           (1 < img_scale im \<and> img_scale im \<le> 16 \<and> img_out_w im * img_scale im \<le> unat (img_w im))"
  shows "process_row im ((state_after im ds k)\<lparr>filter := filter_byte im ds k, cur := body im ds k\<rparr>)
         = state_after im ds (Suc k)"
  using assms process_row_full process_row_scaled by blast

lemma take_scanline:
  assumes "Suc k * (n + 1) \<le> length ds"
  shows "take (Suc k * (n + 1)) ds
         = take (k * (n + 1)) ds @ (ds ! (k * (n + 1)) # take n (drop (k * (n + 1) + 1) ds))"
proof -
  have lt: "k * (n + 1) < length ds" using assms by simp
  have "take (Suc k * (n + 1)) ds = take (k * (n + 1) + (n + 1)) ds"
    by (simp add: ac_simps)
  also have "\<dots> = take (k * (n + 1)) ds @ take (n + 1) (drop (k * (n + 1)) ds)"
    by (rule take_add)
  also have "take (n + 1) (drop (k * (n + 1)) ds)
             = ds ! (k * (n + 1)) # take n (drop (k * (n + 1) + 1) ds)"
    using lt by (simp add: Cons_nth_drop_Suc[symmetric])
  finally show ?thesis .
qed

text \<open>After \<open>k\<close> complete scanlines the assembler is in the state \<open>state_after im ds k\<close>.\<close>

lemma feed_rows:
  assumes stride: "0 < img_stride im"
    and sc: "img_scale im = 1 \<or>
           (1 < img_scale im \<and> img_scale im \<le> 16 \<and> img_out_w im * img_scale im \<le> unat (img_w im))"
  shows "int k \<le> sint (img_h im) \<Longrightarrow> k * (img_stride im + 1) \<le> length ds \<Longrightarrow>
         feed im (take (k * (img_stride im + 1)) ds) (state_after im ds 0) = state_after im ds k"
proof (induction k)
  case 0
  show ?case by simp
next
  case (Suc k)
  let ?n = "img_stride im"
  have len0: "length (cur (state_after im ds 0)) = ?n" by (simp add: state_after_def)
  have k: "int k < sint (img_h im)" "k * (?n + 1) \<le> length ds"
    using Suc.prems by simp_all
  have IH: "feed im (take (k * (?n + 1)) ds) (state_after im ds 0) = state_after im ds k"
    using Suc.IH k by simp
  have b: "length (body im ds k) = ?n"
    using Suc.prems(2) by (simp add: body_def)
  have "feed im (take (Suc k * (?n + 1)) ds) (state_after im ds 0)
        = feed im (filter_byte im ds k # body im ds k) (state_after im ds k)"
    unfolding take_scanline[OF Suc.prems(2)] feed_append[OF len0] IH
    by (simp add: filter_byte_def body_def)
  also have "\<dots> = process_row im
      ((state_after im ds k)\<lparr>filter := filter_byte im ds k, cur := body im ds k\<rparr>)"
    using k(1) b stride by (intro feed_scanline) (simp_all add: state_after_def)
  also have "\<dots> = state_after im ds (Suc k)"
    by (rule process_row_state_after[OF sc])
  finally show ?case .
qed

text \<open>The callbacks made for a stream \<open>ds\<close>: those of its complete scanlines, up to the height.\<close>

lemma feed_calls:
  assumes stride: "0 < img_stride im"
    and sc: "img_scale im = 1 \<or>
           (1 < img_scale im \<and> img_scale im \<le> 16 \<and> img_out_w im * img_scale im \<le> unat (img_w im))"
    and h: "sint (img_h im) = int H"
    and k: "k = min H (length ds div (img_stride im + 1))"
  shows "calls (feed im ds (state_after im ds 0)) = expected_calls im ds k \<and>
         acc (feed im ds (state_after im ds 0)) = acc (state_after im ds k) \<and>
         row (feed im ds (state_after im ds 0)) = k"
proof -
  let ?n = "img_stride im"
  have kl: "k * (?n + 1) \<le> length ds"
  proof -
    have "k * (?n + 1) \<le> length ds div (?n + 1) * (?n + 1)"
      unfolding k by (intro mult_le_mono1) simp
    also have "\<dots> \<le> length ds" by (rule div_times_less_eq_dividend)
    finally show ?thesis .
  qed
  have kh: "int k \<le> sint (img_h im)" by (simp add: h k)
  have len0: "length (cur (state_after im ds 0)) = ?n" by (simp add: state_after_def)
  have "feed im ds (state_after im ds 0)
        = feed im (take (k * (?n + 1)) ds @ drop (k * (?n + 1)) ds) (state_after im ds 0)"
    by simp
  also have "\<dots> = feed im (drop (k * (?n + 1)) ds) (state_after im ds k)"
    unfolding feed_append[OF len0] feed_rows[OF stride sc kh kl] ..
  finally have f: "feed im ds (state_after im ds 0)
                   = feed im (drop (k * (?n + 1)) ds) (state_after im ds k)" .
  show ?thesis
  proof (cases "k = H")
    case True
    then have "\<not> int (row (state_after im ds k)) < sint (img_h im)"
      by (simp add: state_after_def h)
    then show ?thesis unfolding f by (simp add: state_after_def)
  next
    case False
    then have kd: "k = length ds div (?n + 1)" using k by (simp add: min_def split: if_splits)
    have "length ds - k * (?n + 1) = length ds mod (?n + 1)"
      unfolding kd by (rule minus_div_mult_eq_mod)
    also have "\<dots> < ?n + 1" by simp
    finally have short: "length (drop (k * (?n + 1)) ds) \<le> ?n" by simp
    show ?thesis
      unfolding f
      using feed_partial[OF _ _ short, of "state_after im ds k"]
      by (simp add: state_after_def)
  qed
qed

subsection \<open>Decoding an accepted image, row by row\<close>

lemma header_bpp:
  assumes "header_ok png scale"
  shows "0 < png_bpp png"
proof -
  have "ihdr_depth png = 8 \<or> ihdr_depth png = 16" "ihdr_ctype png \<in> {0, 2, 3, 4, 6}"
    using assms by (auto simp: header_ok_def)
  then show ?thesis
    by (auto simp: png_bpp_def png_bpc_def bpp_of_def)
qed

lemma header_dims:
  assumes h: "header_ok png scale"
  shows "0 < png_stride png" "0 < unat (ihdr_w png)" "0 < unat (ihdr_h png)"
    "sint (ihdr_h png) = int (unat (ihdr_h png))" "sint (ihdr_w png) = int (unat (ihdr_w png))"
proof -
  have w: "0 < unat (ihdr_w png) div nat scale" "0 < unat (ihdr_h png) div nat scale"
    and s: "png_stride png < 2 ^ 31" and hh: "unat (ihdr_h png) < 2 ^ 31"
    using h by (simp_all add: header_ok_def)
  show w0: "0 < unat (ihdr_w png)" using w(1) by (cases "unat (ihdr_w png)") simp_all
  show "0 < unat (ihdr_h png)" using w(2) by (cases "unat (ihdr_h png)") simp_all
  show "0 < png_stride png" using w0 header_bpp[OF h] by (simp add: png_stride_def)
  show "sint (ihdr_h png) = int (unat (ihdr_h png))" using hh by (rule sint_small)
  have "unat (ihdr_w png) * 1 \<le> unat (ihdr_w png) * png_bpp png"
    using header_bpp[OF h] by (intro mult_le_mono2) simp
  then have "unat (ihdr_w png) \<le> png_stride png" by (simp add: png_stride_def)
  then have "unat (ihdr_w png) < 2 ^ 31" using s by (rule le_less_trans)
  then show "sint (ihdr_w png) = int (unat (ihdr_w png))" by (rule sint_small)
qed

lemma header_scale:
  assumes h: "header_ok png scale"
  shows "img_scale (image_of e png scale) = 1 \<or>
         (1 < img_scale (image_of e png scale) \<and> img_scale (image_of e png scale) \<le> 16 \<and>
          img_out_w (image_of e png scale) * img_scale (image_of e png scale)
            \<le> unat (img_w (image_of e png scale)))"
proof -
  have "scale = 1 \<or> scale = 2 \<or> scale = 4" using h by (simp add: header_ok_def)
  then show ?thesis by (auto simp: image_of_def)
qed

lemma init_state_after:
  assumes h: "header_ok png scale"
  shows "init_state png scale = state_after (image_of e png scale) ds 0"
proof -
  have "scale = 1 \<or> scale = 2 \<or> scale = 4" using h by (simp add: header_ok_def)
  then show ?thesis
    by (auto simp: init_state_def state_after_def image_of_def expected_calls_def part_sum_def
        map_replicate_const)
qed

text \<open>
  The outcome of decoding an accepted image: return code 0 and one callback per complete
  (output) row of the decompressed stream.
\<close>

lemma decode_calls:
  assumes d: "decodable e png scale ds"
    and fuel: "length (concat (idat (scanned e png))) + length ds + length (idat (scanned e png)) \<le> fuel"
  shows "sped_decode fuel e png scale =
         Some (0, expected_calls (image_of e png scale) ds
                    (min (unat (ihdr_h png)) (length ds div (png_stride png + 1))))"
proof -
  have h: "header_ok png scale" using d by (simp add: decodable_def)
  let ?im = "image_of e png scale"
  have stride: "0 < img_stride ?im" using header_dims(1)[OF h] by (simp add: image_of_def)
  have hh: "sint (img_h ?im) = int (unat (ihdr_h png))"
    using header_dims(4)[OF h] by (simp add: image_of_def)
  have k: "min (unat (ihdr_h png)) (length ds div (png_stride png + 1))
           = min (unat (ihdr_h png)) (length ds div (img_stride ?im + 1))"
    by (simp add: image_of_def)
  show ?thesis
    unfolding sped_decode_run[OF d fuel] init_state_after[OF h, of e ds]
    using feed_calls[OF stride header_scale[OF h] hh k] by simp
qed

subsection \<open>Bounds on the accumulator lanes\<close>

lemma row_sum_le_scale:
  assumes sc: "0 < img_scale im"
  shows "row_sum im c m i \<le> img_scale im * 255"
proof -
  let ?s = "img_scale im"
  have sub: "{x. x < m \<and> x div ?s = i div 3} \<subseteq> {i div 3 * ?s..<i div 3 * ?s + ?s}"
  proof
    fix x assume "x \<in> {x. x < m \<and> x div ?s = i div 3}"
    then have "x div ?s = i div 3" by simp
    then have "i div 3 * ?s \<le> x" "x < i div 3 * ?s + ?s"
      using sc div_times_less_eq_dividend[of x ?s] dividend_less_div_times[of ?s x]
      by (simp_all add: ac_simps)
    then show "x \<in> {i div 3 * ?s..<i div 3 * ?s + ?s}" by simp
  qed
  have "card {x. x < m \<and> x div ?s = i div 3} \<le> card {i div 3 * ?s..<i div 3 * ?s + ?s}"
    by (rule card_mono[OF _ sub]) simp
  then have "card {x. x < m \<and> x div ?s = i div 3} \<le> ?s" by simp
  then have "255 * card {x. x < m \<and> x div ?s = i div 3} \<le> 255 * ?s" by simp
  then show ?thesis using row_sum_le[of im c m i] by (simp add: ac_simps)
qed

lemma part_sum_le:
  assumes sc: "0 < img_scale im"
  shows "part_sum im ds k i \<le> (k mod img_scale im) * (img_scale im * 255)"
proof -
  have "part_sum im ds k i \<le> (\<Sum>r = k - k mod img_scale im..<k. img_scale im * 255)"
    unfolding part_sum_def by (intro sum_mono row_sum_le_scale[OF sc])
  also have "\<dots> = (k mod img_scale im) * (img_scale im * 255)"
    by simp
  finally show ?thesis .
qed

text \<open>
  Within the accumulation of row \<open>k\<close>, after \<open>m\<close> columns, a lane is below
  \<open>scale * scale * 255\<close>.
\<close>

lemma lane_le:
  assumes sc: "0 < img_scale im"
  shows "part_sum im ds k i + row_sum im c m i \<le> img_scale im * img_scale im * 255"
proof -
  let ?s = "img_scale im"
  have "k mod ?s \<le> ?s - 1" using sc by (simp add: less_Suc_eq_le[symmetric])
  then have "(k mod ?s) * (?s * 255) \<le> (?s - 1) * (?s * 255)" by (rule mult_le_mono1)
  then have "part_sum im ds k i + row_sum im c m i \<le> (?s - 1) * (?s * 255) + ?s * 255"
    using part_sum_le[OF sc, of ds k i] row_sum_le_scale[OF sc, of c m i] by linarith
  also have "\<dots> = ?s * ?s * 255"
    using sc by (cases ?s) (simp_all add: algebra_simps)
  finally show ?thesis .
qed

lemma scale_sq_u16:
  assumes "img_scale im \<le> 16"
  shows "img_scale im * img_scale im * 255 < 65536"
proof -
  have "img_scale im * img_scale im \<le> 16 * 16" using assms by (intro mult_mono) simp_all
  then show ?thesis by simp
qed

subsection \<open>A 2 by 2 image\<close>

lemmas scan_eval = scanned_def scan_chunks.simps tag_IDAT_def tag_IEND_def tag_PLTE_def
  tag_tRNS_def SPED_MAX_IDAT_def Let_def

lemma unfilter_step_none: "f \<notin> {1, 2, 3, 4} \<Longrightarrow> unfilter_step f bpp pr i c = c"
  by (simp add: unfilter_step_def Let_def)

lemma unfilter_none: "f \<notin> {1, 2, 3, 4} \<Longrightarrow> unfilter f bpp n pr c = c"
  unfolding unfilter_def by (induction n) (simp_all add: unfilter_step_none)

lemma scanned_2x2: "idat (scanned e (png_2x2_rgb (14 # raw_2x2))) = [14 # raw_2x2]"
  by (simp add: png_2x2_rgb_def raw_2x2_def png_eval scan_eval)

lemma header_2x2: "header_ok (png_2x2_rgb zs) 2"
  by (simp add: header_ok_def png_2x2_rgb_def png_eval png_stride_def png_bpp_def png_bpc_def
      bpp_of_def)

lemma fields_2x2:
  "ihdr_w (png_2x2_rgb zs) = 2" "ihdr_h (png_2x2_rgb zs) = 2" "ihdr_depth (png_2x2_rgb zs) = 8"
  "ihdr_ctype (png_2x2_rgb zs) = 2"
  by (simp_all add: png_2x2_rgb_def png_eval)

lemma decodable_2x2: "decodable stored_env (png_2x2_rgb (14 # raw_2x2)) 2 raw_2x2"
  using stored_inflates[of raw_2x2]
  by (simp add: decodable_def header_2x2 scanned_2x2) (simp add: raw_2x2_def)

lemma image_2x2:
  assumes "ihdr_w png = 2" "ihdr_h png = 2" "ihdr_depth png = 8" "ihdr_ctype png = 2"
  shows "image_of e png 2 =
     \<lparr>img_w = 2, img_h = 2, img_ctype = 2, img_bpc = 1, img_bpp = 3, img_stride = 6,
      img_scale = 2, img_out_w = 1, img_pal = pal (scanned e png)\<rparr>"
  using assms by (simp add: image_of_def png_bpc_def png_bpp_def png_stride_def bpp_of_def)

lemma recon_2x2:
  assumes "ihdr_w png = 2" "ihdr_h png = 2" "ihdr_depth png = 8" "ihdr_ctype png = 2"
  shows "recon (image_of e png 2) raw_2x2 (Suc 0) = [255, 0, 0, 0, 255, 0]"
    "recon (image_of e png 2) raw_2x2 (Suc (Suc 0)) = [0, 0, 255, 255, 255, 255]"
  unfolding image_2x2[OF assms]
  by (simp_all add: unfilter_none filter_byte_def body_def raw_2x2_def)

lemma decode_2x2_scale2_value:
  assumes d: "decodable e png 2 ds"
    and hdr: "ihdr_w png = 2" "ihdr_h png = 2" "ihdr_depth png = 8" "ihdr_ctype png = 2"
    and len: "length ds = 14"
    and px: "recon (image_of e png 2) ds (Suc 0) = [255, 0, 0, 0, 255, 0]"
      "recon (image_of e png 2) ds (Suc (Suc 0)) = [0, 0, 255, 255, 255, 255]"
    and fuel: "length (concat (idat (scanned e png))) + 14 + length (idat (scanned e png)) \<le> fuel"
  shows "sped_decode fuel e png 2 = Some (0, [\<lparr>cb_y = 0, cb_w = 1, cb_px = [0x7BEF]\<rparr>])"
proof -
  let ?im = "image_of e png 2"
  have k: "min (unat (ihdr_h png)) (length ds div (png_stride png + 1)) = 2"
    using hdr len by (simp add: png_stride_def png_bpp_def png_bpc_def bpp_of_def)
  have sel: "img_scale ?im = 2" "img_out_w ?im = 1" "img_ctype ?im = 2" "img_bpc ?im = 1"
    by (simp_all add: image_2x2[OF hdr])
  have s: "src_rgb ?im ds 0 0 = (255, 0, 0)" "src_rgb ?im ds 0 (Suc 0) = (0, 255, 0)"
    "src_rgb ?im ds (Suc 0) 0 = (0, 0, 255)" "src_rgb ?im ds (Suc 0) (Suc 0) = (255, 255, 255)"
    unfolding src_rgb_def px sel by (simp_all add: get_pixel_def)
  have two: "{0..<2::nat} = {0, Suc 0}" by auto
  have b: "block_sum ?im ds 0 0 c = (if c = 0 then 510 else if c = 1 then 510 else 510)" for c
    unfolding block_sum_def sel by (simp add: two s chan_def)
  have avg: "block_avg ?im ds 0 0 = (127, 127, 127)"
    unfolding block_avg_def b sel by simp
  have "expected_calls ?im ds 2 = [\<lparr>cb_y = 0, cb_w = 1, cb_px = [0x7BEF]\<rparr>]"
    unfolding expected_calls_def scaled_row_def sel
    by (simp add: avg pack565_def)
  then show ?thesis
    using decode_calls[OF d] fuel len k by simp
qed

text \<open>
  Claim C3, as amended.  Decoding a 2 by 2 RGB (colour type 2, depth 8) PNG whose pixels
  are (255,0,0), (0,255,0), (0,0,255), (255,255,255) at scale 2 emits exactly one callback
  row containing exactly one pixel, and that pixel's RGB565 value is \<open>0x7BEF\<close>, the
  packing of the floor average (127,127,127) of the four source pixels: each channel sums
  to 510, and \<open>510 div 4 = 127\<close>.
\<close>

theorem decode_2x2_scale2:
  assumes "decodable e png 2 ds"
    and "ihdr_w png = 2" "ihdr_h png = 2" "ihdr_depth png = 8" "ihdr_ctype png = 2"
    and "length ds = 14"
    and "recon (image_of e png 2) ds (Suc 0) = [255, 0, 0, 0, 255, 0]"
    and "recon (image_of e png 2) ds (Suc (Suc 0)) = [0, 0, 255, 255, 255, 255]"
    and "length (concat (idat (scanned e png))) + 14 + length (idat (scanned e png)) \<le> fuel"
  shows "sped_decode fuel e png 2 = Some (0, [\<lparr>cb_y = 0, cb_w = 1, cb_px = [0x7BEF]\<rparr>])"
  using assms by (rule decode_2x2_scale2_value)

theorem decode_2x2_scale2_witness:
  "decodable stored_env (png_2x2_rgb (14 # raw_2x2)) 2 raw_2x2 \<and>
   length raw_2x2 = 14 \<and>
   sped_decode 40 stored_env (png_2x2_rgb (14 # raw_2x2)) 2
     = Some (0, [\<lparr>cb_y = 0, cb_w = 1, cb_px = [0x7BEF]\<rparr>])"
proof -
  have f: "length (concat (idat (scanned stored_env (png_2x2_rgb (14 # raw_2x2))))) + 14 +
           length (idat (scanned stored_env (png_2x2_rgb (14 # raw_2x2)))) \<le> 40"
    unfolding scanned_2x2 by (simp add: raw_2x2_def)
  have l: "length raw_2x2 = 14" by (simp add: raw_2x2_def)
  show ?thesis
    using decode_2x2_scale2[OF decodable_2x2 fields_2x2 l recon_2x2[OF fields_2x2] f]
      decodable_2x2 l
    by simp
qed

theorem decode_2x2_scale2_not_8410:
  "sped_decode 40 stored_env (png_2x2_rgb (14 # raw_2x2)) 2
     \<noteq> Some (0, [\<lparr>cb_y = 0, cb_w = 1, cb_px = [0x8410]\<rparr>])"
proof -
  have f: "length (concat (idat (scanned stored_env (png_2x2_rgb (14 # raw_2x2))))) + 14 +
           length (idat (scanned stored_env (png_2x2_rgb (14 # raw_2x2)))) \<le> 40"
    unfolding scanned_2x2 by (simp add: raw_2x2_def)
  have l: "length raw_2x2 = 14" by (simp add: raw_2x2_def)
  show ?thesis
    using decode_2x2_scale2_value[OF decodable_2x2 fields_2x2 l recon_2x2[OF fields_2x2] f]
    by simp
qed

subsection \<open>Truncated streams\<close>

lemma stride_2x2: "png_stride (png_2x2_rgb zs) = 6" "unat (ihdr_h (png_2x2_rgb zs)) = 2"
  "unat (ihdr_w (png_2x2_rgb zs)) = 2"
  by (simp_all add: png_stride_def png_bpp_def png_bpc_def bpp_of_def fields_2x2)

lemma fuel_2x2:
  "length (concat (idat (scanned stored_env (png_2x2_rgb (14 # raw_2x2))))) + length raw_2x2 +
   length (idat (scanned stored_env (png_2x2_rgb (14 # raw_2x2)))) \<le> 40"
  unfolding scanned_2x2 by (simp add: raw_2x2_def)

lemma full_2x2:
  "unat (ihdr_h (png_2x2_rgb zs)) * (png_stride (png_2x2_rgb zs) + 1) \<le> length raw_2x2"
  by (simp add: stride_2x2 raw_2x2_def)

text \<open>A truncated image: one scanline of the two that a 1 by 2 image needs.\<close>

lemma scanned_1x2: "idat (scanned e (png_1x2_gray [2, 0, 7])) = [[2, 0, 7]]"
  by (simp add: png_1x2_gray_def png_eval scan_eval)

lemma header_1x2: "header_ok (png_1x2_gray zs) 1"
  by (simp add: header_ok_def png_1x2_gray_def png_eval png_stride_def png_bpp_def png_bpc_def
      bpp_of_def)

lemma fields_1x2:
  "ihdr_w (png_1x2_gray zs) = 1" "ihdr_h (png_1x2_gray zs) = 2"
  "ihdr_depth (png_1x2_gray zs) = 8" "ihdr_ctype (png_1x2_gray zs) = 0"
  by (simp_all add: png_1x2_gray_def png_eval)

lemma stride_1x2: "png_stride (png_1x2_gray zs) = 1"
  by (simp add: png_stride_def png_bpp_def png_bpc_def bpp_of_def fields_1x2)

lemma decodable_1x2: "decodable stored_env (png_1x2_gray [2, 0, 7]) 1 [0, 7]"
  using stored_inflates[of "[0, 7]"]
  by (simp add: decodable_def header_1x2 scanned_1x2)

lemma calls_1x2:
  "expected_calls (image_of e (png_1x2_gray zs) 1) [0, 7] (Suc 0) = [\<lparr>cb_y = 0, cb_w = 1, cb_px = [0x20]\<rparr>]"
  by (simp add: expected_calls_def image_of_def full_row_def src_rgb_def fields_1x2 stride_1x2
      png_bpc_def png_bpp_def bpp_of_def unfilter_none filter_byte_def body_def get_pixel_def
      pack565_def)

text \<open>
  Claim C1 fails on the code.  When the decompressed stream ends before \<open>H\<close> scanlines
  (the decompressor reports \<open>Done\<close> early), \<^verbatim>\<open>sped_decode\<close> leaves its loop through
  \<^verbatim>\<open>break\<close> and returns 0, having invoked the callback for the complete scanlines only.
\<close>

theorem truncated_stream_returns_success:
  assumes "decodable e png scale ds"
    and "length ds < unat (ihdr_h png) * (png_stride png + 1)"
    and "length (concat (idat (scanned e png))) + length ds + length (idat (scanned e png)) \<le> fuel"
  shows "sped_decode fuel e png scale =
           Some (0, expected_calls (image_of e png scale) ds (length ds div (png_stride png + 1))) \<and>
         length ds div (png_stride png + 1) < unat (ihdr_h png)"
proof -
  have lt: "length ds div (png_stride png + 1) < unat (ihdr_h png)"
    using assms(2) by (simp add: div_less_iff_less_mult)
  then have "min (unat (ihdr_h png)) (length ds div (png_stride png + 1))
             = length ds div (png_stride png + 1)"
    by simp
  then show ?thesis
    using decode_calls[OF assms(1,3)] lt by simp
qed

theorem truncated_stream_returns_success_witness:
  "decodable stored_env (png_1x2_gray [2, 0, 7]) 1 [0, 7] \<and>
   length [0, 7 :: u8] < unat (ihdr_h (png_1x2_gray [2, 0, 7])) * (png_stride (png_1x2_gray [2, 0, 7]) + 1) \<and>
   sped_decode 10 stored_env (png_1x2_gray [2, 0, 7]) 1
     = Some (0, [\<lparr>cb_y = 0, cb_w = 1, cb_px = [0x20]\<rparr>])"
proof -
  have f: "length (concat (idat (scanned stored_env (png_1x2_gray [2, 0, 7])))) + length [0, 7 :: u8] +
           length (idat (scanned stored_env (png_1x2_gray [2, 0, 7]))) \<le> 10"
    unfolding scanned_1x2 by simp
  have t: "length [0, 7 :: u8] < unat (ihdr_h (png_1x2_gray [2, 0, 7])) *
             (png_stride (png_1x2_gray [2, 0, 7]) + 1)"
    by (simp add: fields_1x2 stride_1x2)
  show ?thesis
    using truncated_stream_returns_success[OF decodable_1x2 t f] decodable_1x2 t
    by (simp add: stride_1x2 calls_1x2)
qed

subsection \<open>Big-endian lengths\<close>

lemma be32_value:
  assumes "n < 2 ^ 32"
  shows "be_value (be32 n) 0 = n"
proof -
  have b: "unat (word_of_nat m :: u8) = m mod 256" for m
    by (simp add: unat_of_nat)
  define c0 where "c0 = n mod 256"
  define n1 where "n1 = n div 256"
  define c1 where "c1 = n1 mod 256"
  define n2 where "n2 = n1 div 256"
  define c2 where "c2 = n2 mod 256"
  define n3 where "n3 = n2 div 256"
  have e0: "n = n1 * 256 + c0" by (simp add: n1_def c0_def)
  have e1: "n1 = n2 * 256 + c1" by (simp add: n2_def c1_def)
  have e2: "n2 = n3 * 256 + c2" by (simp add: n3_def c2_def)
  have d2: "n div 65536 = n2"
    using div_mult2_eq[of n 256 256] by (simp add: n2_def n1_def)
  have d3: "n div 16777216 = n3"
    using div_mult2_eq[of n 65536 256] by (simp add: n3_def d2)
  have "n < 4294967296" using assms by simp
  then have "n3 < 256" unfolding d3[symmetric] by (simp add: div_less_iff_less_mult)
  then have m3: "n3 mod 256 = n3" by simp
  have "n3 * 16777216 + c2 * 65536 + c1 * 256 + c0 = n"
    using e0 e1 e2 by simp
  moreover have "be_value (be32 n) 0 = n3 mod 256 * 16777216 + c2 * 65536 + c1 * 256 + c0"
    unfolding be_value_def be32_def c0_def c1_def c2_def n1_def[symmetric] d2[symmetric] d3[symmetric]
    by (simp add: b d2 n1_def)
  ultimately show ?thesis by (simp add: m3)
qed

lemma length_be32 [simp]: "length (be32 n) = 4"
  by (simp add: be32_def)

lemma be_value_append:
  assumes "length q = 4"
  shows "be_value (X @ q @ Y) (length X) = be_value q 0"
  using assms by (simp add: be_value_def nth_append numeral_2_eq_2 numeral_3_eq_3)

lemma r32_len:
  assumes "n < 2 ^ 32"
  shows "unat (r32 (X @ be32 n @ Y) (length X)) = n"
  unfolding r32_big_endian using be_value_append[of "be32 n" X Y] be32_value[OF assms] by simp

subsection \<open>The chunk scan of an encoded chunk list\<close>

lemma length_enc_chunk:
  "length t = 4 \<Longrightarrow> length crc = 4 \<Longrightarrow> length (enc_chunk (t, d, crc)) = 12 + length d"
  by (simp add: enc_chunk_def)

lemma chunk_fields:
  assumes t: "length t = 4" and d: "length d < 2 ^ 32"
  shows "unat (r32 (X @ enc_chunk (t, d, crc) @ Y) (length X)) = length d"
    and "bytes_at (X @ enc_chunk (t, d, crc) @ Y) (length X + 4) 4 = t"
    and "bytes_at (X @ enc_chunk (t, d, crc) @ Y) (length X + 8) (length d) = d"
proof -
  have "X @ enc_chunk (t, d, crc) @ Y = X @ be32 (length d) @ (t @ d @ crc @ Y)"
    by (simp add: enc_chunk_def)
  then show "unat (r32 (X @ enc_chunk (t, d, crc) @ Y) (length X)) = length d"
    using r32_len[OF d, of X "t @ d @ crc @ Y"] by simp
  show "bytes_at (X @ enc_chunk (t, d, crc) @ Y) (length X + 4) 4 = t"
    using t by (simp add: bytes_at_def enc_chunk_def)
  show "bytes_at (X @ enc_chunk (t, d, crc) @ Y) (length X + 8) (length d) = d"
    using t by (simp add: bytes_at_def enc_chunk_def)
qed

lemma scan_chunk_at:
  assumes t: "length t = 4" and d: "length d < 2 ^ 32" and c: "length crc = 4"
  shows "scan_chunks (X @ enc_chunk (t, d, crc) @ Y) ctype (length X) s =
     (if t = tag_PLTE then
        scan_chunks (X @ enc_chunk (t, d, crc) @ Y) ctype (length X + 12 + length d)
          (s\<lparr>pal := copy_plte (X @ enc_chunk (t, d, crc) @ Y) (length X) (length d) (pal s)\<rparr>)
      else if t = tag_tRNS then
        scan_chunks (X @ enc_chunk (t, d, crc) @ Y) ctype (length X + 12 + length d)
          (if ctype = 3
           then s\<lparr>pal_a := copy_trns (X @ enc_chunk (t, d, crc) @ Y) (length X) (length d) (pal_a s)\<rparr>
           else s)
      else if t = tag_IDAT then
        scan_chunks (X @ enc_chunk (t, d, crc) @ Y) ctype (length X + 12 + length d)
          (if length (idat s) < SPED_MAX_IDAT then s\<lparr>idat := idat s @ [d]\<rparr> else s)
      else if t = tag_IEND then s
      else scan_chunks (X @ enc_chunk (t, d, crc) @ Y) ctype (length X + 12 + length d) s)"
proof -
  have l: "length X + 12 \<le> length (X @ enc_chunk (t, d, crc) @ Y)"
    "\<not> length X + 12 + length d > length (X @ enc_chunk (t, d, crc) @ Y)"
    using t c by (simp_all add: length_enc_chunk)
  show ?thesis
    by (subst scan_chunks.simps)
       (simp only: l chunk_fields[OF t d] Let_def if_True if_False)
qed

lemma chunk_data_nth:
  assumes t: "length t = 4" and m: "m < length d"
  shows "(X @ enc_chunk (t, d, crc) @ Y) ! (length X + 8 + m) = d ! m"
    and "enc_chunk (t, d, crc) ! (8 + m) = d ! m"
  using assms by (simp_all add: enc_chunk_def nth_append)

lemma copy_plte_local:
  assumes t: "length t = 4"
  shows "copy_plte (X @ enc_chunk (t, d, crc) @ Y) (length X) (length d) p
         = copy_plte (enc_chunk (t, d, crc)) 0 (length d) p"
proof -
  let ?n = "min (length d div 3) 256"
  let ?c = "enc_chunk (t, d, crc)"
  have ix: "i * 3 + 2 < length d" if "i \<in> set [0..<?n]" for i
  proof -
    have "i < length d div 3" using that by simp
    then show ?thesis by presburger
  qed
  have "fold (\<lambda>i q. q(i := ((X @ ?c @ Y) ! (length X + 8 + i * 3),
                           (X @ ?c @ Y) ! (length X + 8 + i * 3 + 1),
                           (X @ ?c @ Y) ! (length X + 8 + i * 3 + 2)))) [0..<?n] p
        = fold (\<lambda>i q. q(i := (?c ! (0 + 8 + i * 3), ?c ! (0 + 8 + i * 3 + 1),
                             ?c ! (0 + 8 + i * 3 + 2)))) [0..<?n] p"
  proof (rule fold_cong[OF refl refl])
    fix i assume i: "i \<in> set [0..<?n]"
    have a: "i * 3 < length d" "i * 3 + 1 < length d" "i * 3 + 2 < length d"
      using ix[OF i] by simp_all
    show "(\<lambda>q. q(i := ((X @ ?c @ Y) ! (length X + 8 + i * 3),
                           (X @ ?c @ Y) ! (length X + 8 + i * 3 + 1),
                           (X @ ?c @ Y) ! (length X + 8 + i * 3 + 2))))
        = (\<lambda>q. q(i := (?c ! (0 + 8 + i * 3), ?c ! (0 + 8 + i * 3 + 1),
                             ?c ! (0 + 8 + i * 3 + 2))))"
      using chunk_data_nth(1)[OF t a(1), where X = X and Y = Y and crc = crc]
        chunk_data_nth(1)[OF t a(2), where X = X and Y = Y and crc = crc]
        chunk_data_nth(1)[OF t a(3), where X = X and Y = Y and crc = crc]
        chunk_data_nth(2)[OF t a(1), where crc = crc] chunk_data_nth(2)[OF t a(2), where crc = crc]
        chunk_data_nth(2)[OF t a(3), where crc = crc]
      by (simp add: add.assoc)
  qed
  then show ?thesis by (simp add: copy_plte_def Let_def)
qed

lemma copy_trns_local:
  assumes t: "length t = 4"
  shows "copy_trns (X @ enc_chunk (t, d, crc) @ Y) (length X) (length d) pa
         = copy_trns (enc_chunk (t, d, crc)) 0 (length d) pa"
proof -
  let ?c = "enc_chunk (t, d, crc)"
  have "fold (\<lambda>i q. q(i := (X @ ?c @ Y) ! (length X + 8 + i))) [0..<min (length d) 256] pa
        = fold (\<lambda>i q. q(i := ?c ! (0 + 8 + i))) [0..<min (length d) 256] pa"
  proof (rule fold_cong[OF refl refl])
    fix i assume "i \<in> set [0..<min (length d) 256]"
    then have "i < length d" by simp
    then show "(\<lambda>q. q(i := (X @ ?c @ Y) ! (length X + 8 + i)))
               = (\<lambda>q. q(i := ?c ! (0 + 8 + i)))"
      using chunk_data_nth(1)[OF t, where m = i and d = d and X = X and Y = Y and crc = crc]
        chunk_data_nth(2)[OF t, where m = i and d = d and crc = crc]
      by simp
  qed
  then show ?thesis by (simp add: copy_trns_def)
qed

text \<open>The chunk walk over the encoding of a chunk list is the scan of the list.\<close>

lemma scan_chunks_list:
  assumes "\<forall>c \<in> set cs. chunk_ok c"
  shows "scan_chunks (X @ enc_chunks cs @ Y) ctype (length X) s
         = scan_chunks (X @ enc_chunks cs @ Y) ctype (length X + length (enc_chunks cs))
             (scan_list ctype cs s)"
  using assms
proof (induction cs arbitrary: X s)
  case Nil
  show ?case by (simp add: enc_chunks_def)
next
  case (Cons c cs)
  obtain t d crc where c: "c = (t, d, crc)" by (cases c) auto
  have t: "length t = 4" and d: "length d < 2 ^ 32" and ne: "t \<noteq> tag_IEND"
    and crc: "length crc = 4"
    using Cons.prems by (simp_all add: c chunk_ok_def)
  have rest: "\<forall>c \<in> set cs. chunk_ok c" using Cons.prems by simp
  let ?png = "X @ enc_chunks (c # cs) @ Y"
  let ?c = "enc_chunk (t, d, crc)"
  have png: "?png = X @ ?c @ (enc_chunks cs @ Y)"
    "?png = (X @ ?c) @ enc_chunks cs @ Y"
    by (simp_all add: enc_chunks_def c)
  define nxt where "nxt = length X + 12 + length d"
  have pos: "nxt = length (X @ ?c)"
    using t crc by (simp add: length_enc_chunk nxt_def)
  have len: "length X + length (enc_chunks (c # cs)) = nxt + length (enc_chunks cs)"
    unfolding pos by (simp add: enc_chunks_def c)
  have IH: "scan_chunks ?png ctype nxt s'
            = scan_chunks ?png ctype (length X + length (enc_chunks (c # cs)))
                (scan_list ctype cs s')" for s'
    unfolding len unfolding pos png(2) by (rule Cons.IH[OF rest])
  have cp: "copy_plte ?png (length X) (length d) p = copy_plte ?c 0 (length d) p" for p
    unfolding png(1) by (rule copy_plte_local[OF t])
  have ct: "copy_trns ?png (length X) (length d) p = copy_trns ?c 0 (length d) p" for p
    unfolding png(1) by (rule copy_trns_local[OF t])
  note step = scan_chunk_at[OF t d crc, of X "enc_chunks cs @ Y" ctype s, folded png(1) nxt_def,
      unfolded cp ct]
  have sl: "scan_list ctype (c # cs) s =
     (if t = tag_PLTE then
        scan_list ctype cs (s\<lparr>pal := copy_plte ?c 0 (length d) (pal s)\<rparr>)
      else if t = tag_tRNS then
        scan_list ctype cs
          (if ctype = 3 then s\<lparr>pal_a := copy_trns ?c 0 (length d) (pal_a s)\<rparr> else s)
      else if t = tag_IDAT then
        scan_list ctype cs
          (if length (idat s) < SPED_MAX_IDAT then s\<lparr>idat := idat s @ [d]\<rparr> else s)
      else if t = tag_IEND then s
      else scan_list ctype cs s)"
    by (simp add: c)
  show ?case
    by (subst step, subst sl) (simp add: IH ne)
qed

lemma tags_distinct:
  "tag_IEND \<noteq> tag_PLTE" "tag_IEND \<noteq> tag_tRNS" "tag_IEND \<noteq> tag_IDAT"
  "tag_IDAT \<noteq> tag_PLTE" "tag_IDAT \<noteq> tag_tRNS" "length tag_IDAT = 4" "length tag_IEND = 4"
  by (simp_all add: tag_IEND_def tag_PLTE_def tag_tRNS_def tag_IDAT_def)

lemma scan_iend: "scan_chunks (X @ be32 0 @ tag_IEND @ rest) ctype (length X) s = s"
proof (cases "length X + 12 \<le> length (X @ be32 0 @ tag_IEND @ rest)")
  case False
  then show ?thesis by (subst scan_chunks.simps) (simp only: if_False)
next
  case True
  have z: "unat (r32 (X @ be32 0 @ tag_IEND @ rest) (length X)) = 0"
    using r32_len[of 0 X "tag_IEND @ rest"] by simp
  have t: "bytes_at (X @ be32 0 @ tag_IEND @ rest) (length X + 4) 4 = tag_IEND"
    by (simp add: bytes_at_def tags_distinct)
  have l: "\<not> length X + 12 + 0 > length (X @ be32 0 @ tag_IEND @ rest)"
    using True by simp
  show ?thesis
    by (subst scan_chunks.simps)
       (simp only: True z t l tags_distinct Let_def if_True if_False simp_thms)
qed

lemma header_fields_append:
  assumes "length hdr = 33"
  shows "ihdr_w (hdr @ r) = ihdr_w hdr" "ihdr_h (hdr @ r) = ihdr_h hdr"
    "ihdr_depth (hdr @ r) = ihdr_depth hdr" "ihdr_ctype (hdr @ r) = ihdr_ctype hdr"
    "ihdr_compression (hdr @ r) = ihdr_compression hdr" "ihdr_filter (hdr @ r) = ihdr_filter hdr"
    "ihdr_interlace (hdr @ r) = ihdr_interlace hdr"
    "r32 (hdr @ r) 8 = r32 hdr 8" "bytes_at (hdr @ r) 0 8 = bytes_at hdr 0 8"
    "bytes_at (hdr @ r) 12 4 = bytes_at hdr 12 4"
  using assms
  by (simp_all add: ihdr_w_def ihdr_h_def ihdr_depth_def ihdr_ctype_def ihdr_compression_def
      ihdr_filter_def ihdr_interlace_def r32_def bytes_at_def nth_append)

lemma header_derived_append:
  assumes "length hdr = 33"
  shows "png_bpc (hdr @ r) = png_bpc hdr" "png_bpp (hdr @ r) = png_bpp hdr"
    "png_stride (hdr @ r) = png_stride hdr" "init_state (hdr @ r) scale = init_state hdr scale"
    "header_ok (hdr @ r) scale = header_ok hdr scale"
  using assms
  by (simp_all add: png_bpc_def png_bpp_def png_stride_def init_state_def header_ok_def
      header_fields_append)

lemma scanned_png_of_chunks:
  assumes hdr: "length hdr = 33" and cs: "\<forall>c \<in> set cs. chunk_ok c"
  shows "scanned e (png_of_chunks hdr cs rest)
         = scan_list (ihdr_ctype hdr) cs \<lparr>pal = pal_stack e, pal_a = (\<lambda>i. 255), idat = []\<rparr>"
proof -
  let ?png = "hdr @ enc_chunks cs @ (be32 0 @ tag_IEND @ rest)"
  have p2: "?png = (hdr @ enc_chunks cs) @ be32 0 @ tag_IEND @ rest" by simp
  have "scan_chunks ?png (ihdr_ctype hdr) (length hdr) s
        = scan_chunks ?png (ihdr_ctype hdr) (length hdr + length (enc_chunks cs))
            (scan_list (ihdr_ctype hdr) cs s)" for s
    by (rule scan_chunks_list[OF cs])
  also have "\<And>s. scan_chunks ?png (ihdr_ctype hdr) (length hdr + length (enc_chunks cs)) s = s"
    using scan_iend[of "hdr @ enc_chunks cs" rest] by (simp only: p2 length_append)
  finally show ?thesis
    unfolding scanned_def png_of_chunks_def
    using hdr header_fields_append(4)[OF hdr] by simp
qed

lemma idat_payloads_simps:
  "idat_payloads [] = []"
  "idat_payloads ((t, d, crc) # cs) = (if t = tag_IDAT then d # idat_payloads cs else idat_payloads cs)"
  "idat_payloads (cs1 @ cs2) = idat_payloads cs1 @ idat_payloads cs2"
  by (simp_all add: idat_payloads_def)

lemma idat_scan_list:
  assumes "\<forall>c \<in> set cs. chunk_ok c" and "length (idat s) \<le> SPED_MAX_IDAT"
  shows "idat (scan_list ctype cs s) = take SPED_MAX_IDAT (idat s @ idat_payloads cs)"
  using assms
proof (induction cs arbitrary: s)
  case Nil
  then show ?case by (simp add: idat_payloads_simps)
next
  case (Cons c cs)
  obtain t d crc where c: "c = (t, d, crc)" by (cases c) auto
  have ne: "t \<noteq> tag_IEND" using Cons.prems(1) by (simp add: c chunk_ok_def)
  have rest: "\<forall>c \<in> set cs. chunk_ok c" using Cons.prems(1) by simp
  note IH = Cons.IH[OF rest]
  consider (plte) "t = tag_PLTE" | (trns) "t \<noteq> tag_PLTE" "t = tag_tRNS"
    | (idat) "t = tag_IDAT" | (other) "t \<noteq> tag_PLTE" "t \<noteq> tag_tRNS" "t \<noteq> tag_IDAT"
    by blast
  then show ?case
  proof cases
    case plte
    have p: "idat_payloads (c # cs) = idat_payloads cs"
      using plte tags_distinct by (simp add: c idat_payloads_simps)
    have "idat (scan_list ctype (c # cs) s)
          = idat (scan_list ctype cs (s\<lparr>pal := copy_plte (enc_chunk (t, d, crc)) 0 (length d) (pal s)\<rparr>))"
      using plte by (simp add: c)
    also have "\<dots> = take SPED_MAX_IDAT (idat s @ idat_payloads cs)"
      using Cons.prems(2) by (subst IH) simp_all
    finally show ?thesis by (simp only: p)
  next
    case trns
    have p: "idat_payloads (c # cs) = idat_payloads cs"
      using trns tags_distinct by (simp add: c idat_payloads_simps)
    have "idat (scan_list ctype (c # cs) s)
          = idat (scan_list ctype cs
                (if ctype = 3
                 then s\<lparr>pal_a := copy_trns (enc_chunk (t, d, crc)) 0 (length d) (pal_a s)\<rparr> else s))"
      using trns by (simp add: c)
    also have "\<dots> = take SPED_MAX_IDAT (idat s @ idat_payloads cs)"
      using Cons.prems(2) by (subst IH) simp_all
    finally show ?thesis by (simp only: p)
  next
    case idat
    have p: "idat_payloads (c # cs) = d # idat_payloads cs"
      using idat by (simp add: c idat_payloads_simps)
    have sl: "scan_list ctype (c # cs) s
          = scan_list ctype cs
                (if length (idat s) < SPED_MAX_IDAT then s\<lparr>idat := idat s @ [d]\<rparr> else s)"
      using idat tags_distinct by (simp add: c)
    show ?thesis
    proof (cases "length (idat s) < SPED_MAX_IDAT")
      case True
      have "idat (scan_list ctype (c # cs) s)
            = take SPED_MAX_IDAT (idat (s\<lparr>idat := idat s @ [d]\<rparr>) @ idat_payloads cs)"
        unfolding sl using True by (subst IH) simp_all
      then show ?thesis by (simp add: p)
    next
      case False
      then have full: "length (idat s) = SPED_MAX_IDAT" using Cons.prems(2) by simp
      have "idat (scan_list ctype (c # cs) s) = take SPED_MAX_IDAT (idat s @ idat_payloads cs)"
        unfolding sl using False Cons.prems(2) by (subst IH) simp_all
      then show ?thesis using full by (simp add: p)
    qed
  next
    case other
    have p: "idat_payloads (c # cs) = idat_payloads cs"
      using other by (simp add: c idat_payloads_simps)
    have "idat (scan_list ctype (c # cs) s) = idat (scan_list ctype cs s)"
      using other ne by (simp add: c)
    also have "\<dots> = take SPED_MAX_IDAT (idat s @ idat_payloads cs)"
      using Cons.prems(2) by (rule IH)
    finally show ?thesis by (simp only: p)
  qed
qed

lemma scan_list_pal:
  assumes "pal s = pal s'"
  shows "pal (scan_list ctype cs s) = pal (scan_list ctype (List.filter (\<lambda>c. fst c \<noteq> tag_IDAT) cs) s')"
  using assms
proof (induction cs arbitrary: s s')
  case Nil
  then show ?case by simp
next
  case (Cons c cs)
  obtain t d crc where c: "c = (t, d, crc)" by (cases c) auto
  let ?f = "List.filter (\<lambda>c. fst c \<noteq> tag_IDAT)"
  consider (plte) "t = tag_PLTE" | (trns) "t \<noteq> tag_PLTE" "t = tag_tRNS"
    | (idat) "t = tag_IDAT" | (iend) "t \<noteq> tag_PLTE" "t \<noteq> tag_tRNS" "t \<noteq> tag_IDAT" "t = tag_IEND"
    | (other) "t \<noteq> tag_PLTE" "t \<noteq> tag_tRNS" "t \<noteq> tag_IDAT" "t \<noteq> tag_IEND"
    by blast
  then show ?case
  proof cases
    case plte
    define p where "p = copy_plte (enc_chunk (t, d, crc)) 0 (length d)"
    have l: "scan_list ctype (c # cs) s = scan_list ctype cs (s\<lparr>pal := p (pal s)\<rparr>)"
      using plte by (simp add: c p_def)
    have r: "scan_list ctype (?f (c # cs)) s' = scan_list ctype (?f cs) (s'\<lparr>pal := p (pal s)\<rparr>)"
      using plte tags_distinct Cons.prems by (simp add: c p_def)
    show ?thesis unfolding l r by (rule Cons.IH) simp
  next
    case trns
    define a where "a = copy_trns (enc_chunk (t, d, crc)) 0 (length d)"
    have l: "scan_list ctype (c # cs) s
             = scan_list ctype cs (if ctype = 3 then s\<lparr>pal_a := a (pal_a s)\<rparr> else s)"
      using trns by (simp add: c a_def)
    have r: "scan_list ctype (?f (c # cs)) s'
             = scan_list ctype (?f cs) (if ctype = 3 then s'\<lparr>pal_a := a (pal_a s')\<rparr> else s')"
      using trns tags_distinct by (simp add: c a_def)
    show ?thesis unfolding l r by (rule Cons.IH) (simp add: Cons.prems)
  next
    case idat
    have l: "scan_list ctype (c # cs) s
             = scan_list ctype cs (if length (idat s) < SPED_MAX_IDAT then s\<lparr>idat := idat s @ [d]\<rparr> else s)"
      using idat tags_distinct by (simp add: c)
    have r: "?f (c # cs) = ?f cs" using idat by (simp add: c)
    show ?thesis unfolding l r by (rule Cons.IH) (simp add: Cons.prems)
  next
    case iend
    have l: "scan_list ctype (c # cs) s = s" using iend by (simp add: c)
    have r: "scan_list ctype (?f (c # cs)) s' = s'" using iend by (simp add: c)
    show ?thesis unfolding l r by (rule Cons.prems)
  next
    case other
    have l: "scan_list ctype (c # cs) s = scan_list ctype cs s" using other by (simp add: c)
    have r: "scan_list ctype (?f (c # cs)) s' = scan_list ctype (?f cs) s'"
      using other by (simp add: c)
    show ?thesis unfolding l r by (rule Cons.IH) (rule Cons.prems)
  qed
qed

lemma idat_png_of_chunks:
  assumes hdr: "length hdr = 33" and cs: "\<forall>c \<in> set cs. chunk_ok c"
  shows "idat (scanned e (png_of_chunks hdr cs rest)) = take SPED_MAX_IDAT (idat_payloads cs)"
  unfolding scanned_png_of_chunks[OF hdr cs]
  by (subst idat_scan_list[OF cs]) simp_all

lemma pal_png_of_chunks:
  assumes hdr: "length hdr = 33" and cs: "\<forall>c \<in> set cs. chunk_ok c"
  shows "pal (scanned e (png_of_chunks hdr cs rest))
         = pal (scan_list (ihdr_ctype hdr) (List.filter (\<lambda>c. fst c \<noteq> tag_IDAT) cs)
                  \<lparr>pal = pal_stack e, pal_a = (\<lambda>i. 255), idat = []\<rparr>)"
  unfolding scanned_png_of_chunks[OF hdr cs]
  by (rule scan_list_pal) simp

lemma png_of_chunks_header:
  assumes hdr: "length hdr = 33"
  shows "header_ok (png_of_chunks hdr cs rest) scale = header_ok hdr scale"
    "ihdr_h (png_of_chunks hdr cs rest) = ihdr_h hdr"
    "ihdr_w (png_of_chunks hdr cs rest) = ihdr_w hdr"
    "png_stride (png_of_chunks hdr cs rest) = png_stride hdr"
    "init_state (png_of_chunks hdr cs rest) scale = init_state hdr scale"
    "png_bpc (png_of_chunks hdr cs rest) = png_bpc hdr"
    "png_bpp (png_of_chunks hdr cs rest) = png_bpp hdr"
    "ihdr_ctype (png_of_chunks hdr cs rest) = ihdr_ctype hdr"
  unfolding png_of_chunks_def
  by (simp_all only: header_derived_append[OF hdr] header_fields_append[OF hdr])

text \<open>An accepted image with at most 64 IDAT chunks whose stream inflates is decodable.\<close>

lemma decodable_png_of_chunks:
  assumes hdr: "length hdr = 33" and cs: "\<forall>c \<in> set cs. chunk_ok c"
    and ne: "idat_payloads cs \<noteq> []" and le: "length (idat_payloads cs) \<le> SPED_MAX_IDAT"
    and h: "header_ok hdr scale" and a: "alloc_ok e"
    and inf: "inflates e (concat (idat_payloads cs)) ds"
  shows "decodable e (png_of_chunks hdr cs rest) scale ds"
  unfolding decodable_def idat_png_of_chunks[OF hdr cs] png_of_chunks_header(1)[OF hdr]
  using ne le h a inf by simp

lemma idat_payloads_none:
  assumes "\<forall>c \<in> set cs. fst c \<noteq> tag_IDAT"
  shows "idat_payloads cs = []" "List.filter (\<lambda>c. fst c \<noteq> tag_IDAT) cs = cs"
  using assms by (simp_all add: idat_payloads_def filter_empty_conv filter_id_conv)

lemma image_of_png_of_chunks:
  assumes hdr: "length hdr = 33"
    and cs: "\<forall>c \<in> set cs. chunk_ok c" and cs': "\<forall>c \<in> set cs'. chunk_ok c"
    and same: "List.filter (\<lambda>c. fst c \<noteq> tag_IDAT) cs = List.filter (\<lambda>c. fst c \<noteq> tag_IDAT) cs'"
  shows "image_of e (png_of_chunks hdr cs rest) scale = image_of e (png_of_chunks hdr cs' rest') scale"
  unfolding image_of_def png_of_chunks_header[OF hdr] pal_png_of_chunks[OF hdr cs]
    pal_png_of_chunks[OF hdr cs'] same ..

subsection \<open>The stored-block decompressor on a chunk list cut short\<close>

lemma stored_alloc_ok: "alloc_ok stored_env"
  by (simp add: stored_env_def)

lemma stored_call_header:
  assumes "0 < unat n"
  shows "tinfl_decompress stored_env Header [n] 0 True = (StNeedsMoreInput, 1, [], Body (unat n))"
  using assms
  by (simp add: stored_env_def stored_decompress_def stored_body_def TINFL_LZ_DICT_SIZE_def)

lemma stored_call_body:
  assumes "2 \<le> r" "u < 32767"
  shows "tinfl_decompress stored_env (Body r) [b] u True = (StNeedsMoreInput, 1, [b], Body (r - 1))"
  using assms
  by (auto simp add: stored_env_def stored_decompress_def stored_body_def TINFL_LZ_DICT_SIZE_def
      min_def)

lemma stored_call_end:
  assumes "0 < r" "u < 32768"
  shows "tinfl_decompress stored_env (Body r) [] u False = (StFailed, 0, [], Body r)"
  using assms
  by (simp add: stored_env_def stored_decompress_def stored_body_def TINFL_LZ_DICT_SIZE_def)

lemma feed_nil: "feed im [] s = s"
  by (simp add: feed.simps)

text \<open>
  The decode loop on a stored stream cut short.  The IDAT list holds the length byte \<open>n\<close>
  and fewer than \<open>n\<close> literal bytes, one byte per chunk; the rows of the image do not complete
  within them.  The last call of the decompressor has no input and no more to come, and fails.
\<close>

lemma stored_truncated_end:
  assumes N: "length bs < N" and L: "length bs < 32767"
    and rows: "int (row s) < sint (img_h im)"
    and ids: "length ids = Suc (length bs)"
  shows "decode_loop (Suc fuel) stored_env im ids
           \<lparr>decomp = Body (N - length bs), ci = length bs, in_ptr = [], dict_ofs = length bs\<rparr> s
         = Some (- 1, s)"
proof -
  let ?fs = "\<lparr>decomp = Body (N - length bs), ci = length bs, in_ptr = [],
              dict_ofs = length bs\<rparr>"
  have "tinfl_decompress stored_env (decomp ?fs) (in_ptr ?fs) (dict_ofs ?fs)
          (ci ?fs < length ids - 1 \<or> in_ptr ?fs \<noteq> []) = (StFailed, 0, [], Body (N - length bs))"
    using stored_call_end[of "N - length bs" "length bs"] N L by (simp add: ids)
  from loop_body_eq[OF this, of im s]
  have "loop_body stored_env im ids ?fs s = (StFailed, ?fs, s)"
    using L by (simp add: ids feed_nil TINFL_LZ_DICT_SIZE_def)
  then show ?thesis using rows by simp
qed

lemma stored_truncated_body:
  fixes bs :: "u8 list"
  assumes N: "length bs < N" and L: "length bs < 32767"
    and len: "length (cur s0) = img_stride im"
    and rows: "\<forall>t \<le> length bs. int (row (feed im (take t bs) s0)) < sint (img_h im)"
    and ids: "ids = map (\<lambda>b. [b]) (n # bs)"
  shows "u < length bs \<Longrightarrow> length bs - u + 1 \<le> fuel \<Longrightarrow>
         decode_loop fuel stored_env im ids
           \<lparr>decomp = Body (N - u), ci = Suc u, in_ptr = [bs ! u], dict_ofs = u\<rparr>
           (feed im (take u bs) s0)
         = Some (- 1, feed im bs s0)"
proof (induction fuel arbitrary: u)
  case 0
  then show ?case by simp
next
  case (Suc fuel)
  note u = Suc.prems(1) and fuel = Suc.prems(2)
  let ?fs = "\<lparr>decomp = Body (N - u), ci = Suc u, in_ptr = [bs ! u], dict_ofs = u\<rparr>"
  let ?s = "feed im (take u bs) s0"
  have lids: "length ids = Suc (length bs)" by (simp add: ids)
  have row: "int (row ?s) < sint (img_h im)" using rows u by simp
  have "tinfl_decompress stored_env (decomp ?fs) (in_ptr ?fs) (dict_ofs ?fs)
          (ci ?fs < length ids - 1 \<or> in_ptr ?fs \<noteq> [])
        = (StNeedsMoreInput, 1, [bs ! u], Body (N - u - 1))"
    using stored_call_body[of "N - u" u "bs ! u"] N L u by simp
  note lb = loop_body_eq[OF this, of im ?s]
  have s': "feed im [bs ! u] ?s = feed im (take (Suc u) bs) s0"
    using feed_append[OF len, of "take u bs" "[bs ! u]"] u
    by (simp add: take_Suc_conv_app_nth)
  have d: "Suc u mod TINFL_LZ_DICT_SIZE = Suc u"
    using L u by (simp add: TINFL_LZ_DICT_SIZE_def)
  show ?case
  proof (cases "Suc u < length bs")
    case True
    have nx: "ids ! Suc (Suc u) = [bs ! Suc u]" using True by (simp add: ids)
    have "loop_body stored_env im ids ?fs ?s
          = (StNeedsMoreInput,
             \<lparr>decomp = Body (N - Suc u), ci = Suc (Suc u), in_ptr = [bs ! Suc u],
               dict_ofs = Suc u\<rparr>,
             feed im (take (Suc u) bs) s0)"
      unfolding lb s' using True by (simp add: lids nx d)
    moreover have "decode_loop fuel stored_env im ids
             \<lparr>decomp = Body (N - Suc u), ci = Suc (Suc u), in_ptr = [bs ! Suc u],
               dict_ofs = Suc u\<rparr>
             (feed im (take (Suc u) bs) s0) = Some (- 1, feed im bs s0)"
      using True fuel by (intro Suc.IH) simp_all
    ultimately show ?thesis using row by simp
  next
    case False
    then have e: "Suc u = length bs" using u by simp
    have "loop_body stored_env im ids ?fs ?s
          = (StNeedsMoreInput,
             \<lparr>decomp = Body (N - length bs), ci = length bs, in_ptr = [],
               dict_ofs = length bs\<rparr>,
             feed im bs s0)"
      unfolding lb s' using e d by (simp add: lids)
    moreover obtain m where m: "fuel = Suc m" using fuel u by (cases fuel) simp_all
    moreover have "decode_loop (Suc m) stored_env im ids
             \<lparr>decomp = Body (N - length bs), ci = length bs, in_ptr = [],
               dict_ofs = length bs\<rparr> (feed im bs s0) = Some (- 1, feed im bs s0)"
    proof (rule stored_truncated_end[OF N L _ lids])
      show "int (row (feed im bs s0)) < sint (img_h im)"
        using rows by (auto dest: spec[of _ "length bs"])
    qed
    ultimately show ?thesis using row by simp
  qed
qed

lemma stored_truncated:
  fixes bs :: "u8 list"
  assumes N: "length bs < unat n" and L: "length bs < 32767"
    and len: "length (cur s0) = img_stride im"
    and rows: "\<forall>t \<le> length bs. int (row (feed im (take t bs) s0)) < sint (img_h im)"
    and fuel: "length bs + 2 \<le> fuel"
  shows "decode_loop fuel stored_env im (map (\<lambda>b. [b]) (n # bs))
           \<lparr>decomp = Header, ci = 0, in_ptr = [n], dict_ofs = 0\<rparr> s0
         = Some (- 1, feed im bs s0)"
proof -
  let ?ids = "map (\<lambda>b. [b]) (n # bs)"
  let ?fs = "\<lparr>decomp = Header, ci = 0, in_ptr = [n], dict_ofs = 0\<rparr>"
  obtain m where m: "fuel = Suc m" "length bs + 1 \<le> m" using fuel by (cases fuel) simp_all
  have row: "int (row s0) < sint (img_h im)" using rows by (auto simp: feed_nil dest: spec[of _ 0])
  have "tinfl_decompress stored_env (decomp ?fs) (in_ptr ?fs) (dict_ofs ?fs)
          (ci ?fs < length ?ids - 1 \<or> in_ptr ?fs \<noteq> [])
        = (StNeedsMoreInput, 1, [], Body (unat n))"
    using stored_call_header[of n] N by simp
  note lb = loop_body_eq[OF this, of im s0]
  show ?thesis
  proof (cases "bs = []")
    case True
    have "loop_body stored_env im ?ids ?fs s0
          = (StNeedsMoreInput,
             \<lparr>decomp = Body (unat n - length bs), ci = length bs, in_ptr = [],
               dict_ofs = length bs\<rparr>, s0)"
      unfolding lb using True by (simp add: feed_nil TINFL_LZ_DICT_SIZE_def)
    moreover obtain k where k: "m = Suc k" using m(2) by (cases m) simp_all
    moreover have "decode_loop (Suc k) stored_env im ?ids
             \<lparr>decomp = Body (unat n - length bs), ci = length bs, in_ptr = [],
               dict_ofs = length bs\<rparr> s0 = Some (- 1, s0)"
      using row by (intro stored_truncated_end[OF N L]) simp_all
    ultimately show ?thesis using row True by (simp add: m(1) feed_nil)
  next
    case False
    then have pos: "0 < length bs" by simp
    have "loop_body stored_env im ?ids ?fs s0
          = (StNeedsMoreInput,
             \<lparr>decomp = Body (unat n - 0), ci = Suc 0, in_ptr = [bs ! 0], dict_ofs = 0\<rparr>,
             feed im (take 0 bs) s0)"
      unfolding lb using pos by (simp add: feed_nil TINFL_LZ_DICT_SIZE_def)
    moreover have "decode_loop m stored_env im ?ids
             \<lparr>decomp = Body (unat n - 0), ci = Suc 0, in_ptr = [bs ! 0], dict_ofs = 0\<rparr>
             (feed im (take 0 bs) s0) = Some (- 1, feed im bs s0)"
      using pos m(2) by (intro stored_truncated_body[OF N L len rows refl]) simp_all
    ultimately show ?thesis using row by (simp add: m(1))
  qed
qed

subsection \<open>An image with 65 IDAT chunks\<close>

lemma hdr_1x32: "length (mk_ihdr 1 32 8 0 0 0 0) = 33" "header_ok (mk_ihdr 1 32 8 0 0 0 0) 1"
  by (simp_all add: header_ok_def png_eval png_stride_def png_bpp_def png_bpc_def bpp_of_def)

lemma chunks_65_ok: "\<forall>c \<in> set chunks_65. chunk_ok c"
  by (simp add: chunks_65_def chunk_ok_def tags_distinct tags_distinct(3)[symmetric] rows_1x32_def)

lemma payloads_65: "idat_payloads chunks_65 = map (\<lambda>b. [b]) (64 # rows_1x32)"
  by (simp add: chunks_65_def idat_payloads_def comp_def)

lemma idat_65:
  "idat (scanned e png_65_idat) = map (\<lambda>b. [b]) (64 # take 63 rows_1x32)"
  unfolding png_65_idat_def idat_png_of_chunks[OF hdr_1x32(1) chunks_65_ok] payloads_65
  by (simp add: SPED_MAX_IDAT_def take_map)

lemma image_1x32:
  "image_of e png_65_idat 1 =
     \<lparr>img_w = 1, img_h = 32, img_ctype = 0, img_bpc = 1, img_bpp = 1, img_stride = 1,
      img_scale = 1, img_out_w = 1, img_pal = pal (scanned e png_65_idat)\<rparr>"
  unfolding image_of_def
  unfolding png_65_idat_def png_of_chunks_header[OF hdr_1x32(1)]
  by (simp add: png_eval png_stride_def png_bpp_def png_bpc_def bpp_of_def)

lemma accepted_65:
  "header_ok png_65_idat 1" "alloc_ok stored_env" "idat (scanned stored_env png_65_idat) \<noteq> []"
proof -
  show "header_ok png_65_idat 1"
    unfolding png_65_idat_def png_of_chunks_header[OF hdr_1x32(1)] by (rule hdr_1x32(2))
  show "alloc_ok stored_env" by (simp add: stored_env_def)
  show "idat (scanned stored_env png_65_idat) \<noteq> []" unfolding idat_65 by simp
qed

lemma rows_1x32_length: "length rows_1x32 = 64"
  by (simp add: rows_1x32_def length_concat sum_list_replicate)

lemma stride_1x32:
  "png_stride png_65_idat = 1" "unat (ihdr_h png_65_idat) = 32" "unat (ihdr_w png_65_idat) = 1"
  unfolding png_65_idat_def png_of_chunks_header[OF hdr_1x32(1)]
  by (simp_all add: png_eval png_stride_def png_bpp_def png_bpc_def bpp_of_def)

lemma image_65_sel:
  "img_stride (image_of e png_65_idat 1) = 1" "img_scale (image_of e png_65_idat 1) = 1"
  "sint (img_h (image_of e png_65_idat 1)) = 32"
  by (simp_all add: image_1x32)

lemma rows_65:
  "row (feed (image_of e png_65_idat 1) ds (init_state png_65_idat 1)) = min 32 (length ds div 2)"
    "calls (feed (image_of e png_65_idat 1) ds (init_state png_65_idat 1))
       = expected_calls (image_of e png_65_idat 1) ds (min 32 (length ds div 2))"
proof -
  let ?im = "image_of e png_65_idat 1"
  have s: "0 < img_stride ?im" by (simp add: image_65_sel)
  have sc: "img_scale ?im = 1 \<or>
           (1 < img_scale ?im \<and> img_scale ?im \<le> 16 \<and> img_out_w ?im * img_scale ?im \<le> unat (img_w ?im))"
    by (simp add: image_65_sel)
  have h: "sint (img_h ?im) = int 32" by (simp add: image_65_sel)
  have k: "min 32 (length ds div 2) = min 32 (length ds div (img_stride ?im + 1))"
    by (simp add: image_65_sel numeral_2_eq_2)
  note f = feed_calls[OF s sc h k, folded init_state_after[OF accepted_65(1)]]
  show "row (feed ?im ds (init_state png_65_idat 1)) = min 32 (length ds div 2)"
    using f by simp
  show "calls (feed ?im ds (init_state png_65_idat 1))
       = expected_calls ?im ds (min 32 (length ds div 2))"
    using f by simp
qed

lemma decode_65:
  assumes "65 \<le> fuel"
  shows "sped_decode fuel stored_env png_65_idat 1
   = Some (- 1, expected_calls (image_of stored_env png_65_idat 1) (take 63 rows_1x32) 31)"
proof -
  let ?im = "image_of stored_env png_65_idat 1"
  let ?s0 = "init_state png_65_idat 1"
  let ?bs = "take 63 rows_1x32"
  have l: "length ?bs = 63" by (simp add: rows_1x32_length)
  have N: "length ?bs < unat (64 :: u8)" by (simp add: l)
  have L: "length ?bs < 32767" by (simp add: l)
  have len: "length (cur ?s0) = img_stride ?im" by (simp add: init_state_def image_of_def)
  have rows: "\<forall>t \<le> length ?bs. int (row (feed ?im (take t ?bs) ?s0)) < sint (img_h ?im)"
  proof (intro allI impI)
    fix t assume "t \<le> length ?bs"
    then have a: "t \<le> 63" by (simp only: l)
    then have "length (take t ?bs) = t" using l by simp
    then have "length (take t ?bs) div 2 \<le> 31" using div_le_mono[OF a, of 2] by simp
    then have "row (feed ?im (take t ?bs) ?s0) \<le> 31" unfolding rows_65 by simp
    then show "int (row (feed ?im (take t ?bs) ?s0)) < sint (img_h ?im)"
      by (simp add: image_65_sel)
  qed
  have fuel: "length ?bs + 2 \<le> fuel" using assms by (simp add: l)
  have "decode_loop fuel stored_env ?im (idat (scanned stored_env png_65_idat))
          \<lparr>decomp = tinfl_init stored_env, ci = 0, in_ptr = idat (scanned stored_env png_65_idat) ! 0,
            dict_ofs = 0\<rparr> ?s0
        = Some (- 1, feed ?im ?bs ?s0)"
    unfolding idat_65 using stored_truncated[OF N L len rows fuel]
    by (simp add: stored_env_def)
  moreover have "calls (feed ?im ?bs ?s0) = expected_calls ?im ?bs 31"
    unfolding rows_65 by (simp add: rows_1x32_length)
  ultimately show ?thesis
    unfolding sped_decode_accepted[OF accepted_65] by simp
qed

subsection \<open>The callback sequence\<close>

lemma full_stream_rows:
  assumes "H * (n + 1) \<le> length ds"
  shows "min H (length ds div (n + 1)) = H"
proof -
  have "H \<le> length ds div (n + 1)"
    using assms by (simp add: less_eq_div_iff_mult_less_eq)
  then show ?thesis by simp
qed

lemma decode_full:
  assumes d: "decodable e png scale ds"
    and full: "unat (ihdr_h png) * (png_stride png + 1) \<le> length ds"
    and fuel: "length (concat (idat (scanned e png))) + length ds + length (idat (scanned e png)) \<le> fuel"
  shows "sped_decode fuel e png scale =
         Some (0, expected_calls (image_of e png scale) ds (unat (ihdr_h png)))"
  using decode_calls[OF d fuel] full_stream_rows[OF full] by simp

lemma calls_of_decodable:
  assumes "decodable e png scale ds"
    and "unat (ihdr_h png) * (png_stride png + 1) \<le> length ds"
    and "length (concat (idat (scanned e png))) + length ds + length (idat (scanned e png)) \<le> fuel"
  shows "\<exists>cs. sped_decode fuel e png scale = Some (0, cs) \<and>
           length cs = unat (ihdr_h png) div nat scale \<and>
           map cb_y cs = map int [0..<unat (ihdr_h png) div nat scale] \<and>
           (\<forall>c \<in> set cs. cb_w c = int (unat (ihdr_w png) div nat scale) \<and>
                          length (cb_px c) = unat (ihdr_w png) div nat scale)"
proof -
  let ?im = "image_of e png scale"
  let ?cs = "expected_calls ?im ds (unat (ihdr_h png))"
  have h: "header_ok png scale" using assms(1) by (simp add: decodable_def)
  have sc: "scale = 1 \<or> scale = 2 \<or> scale = 4" using h by (simp add: header_ok_def)
  have w: "sint (img_w ?im) = int (unat (ihdr_w png))"
    using header_dims(5)[OF h] by (simp add: image_of_def)
  have sel: "img_scale ?im = nat scale" "img_out_w ?im = unat (ihdr_w png) div nat scale"
    "img_w ?im = ihdr_w png"
    by (simp_all add: image_of_def)
  have "length ?cs = unat (ihdr_h png) div nat scale"
    using sc by (auto simp: expected_calls_def sel)
  moreover have "map cb_y ?cs = map int [0..<unat (ihdr_h png) div nat scale]"
    using sc by (auto simp: expected_calls_def sel full_row_def scaled_row_def)
  moreover have "\<forall>c \<in> set ?cs. cb_w c = int (unat (ihdr_w png) div nat scale) \<and>
                          length (cb_px c) = unat (ihdr_w png) div nat scale"
    using sc w by (auto simp: expected_calls_def sel full_row_def scaled_row_def)
  ultimately show ?thesis
    using decode_full[OF assms] by blast
qed

lemma hdr_2x2: "length (mk_ihdr 2 2 8 2 0 0 0) = 33" "header_ok (mk_ihdr 2 2 8 2 0 0 0) 1"
  by (simp_all add: header_ok_def png_eval png_stride_def png_bpp_def png_bpc_def bpp_of_def)

lemma split_2x2_ok: "\<forall>c \<in> set chunks_2x2_split. chunk_ok c"
  by (simp add: chunks_2x2_split_def chunk_ok_def tags_distinct tags_distinct(3)[symmetric]
      raw_2x2_def)

lemma split_2x2_payloads:
  "idat_payloads chunks_2x2_split = [take 5 (14 # raw_2x2), drop 5 (14 # raw_2x2)]"
  "concat (idat_payloads chunks_2x2_split) = 14 # raw_2x2"
  by (simp_all add: chunks_2x2_split_def idat_payloads_def)

lemma split_2x2_fields:
  "header_ok png_2x2_split 1" "png_stride png_2x2_split = 6" "unat (ihdr_h png_2x2_split) = 2"
  "unat (ihdr_w png_2x2_split) = 2"
proof -
  show "header_ok png_2x2_split 1"
    unfolding png_2x2_split_def png_of_chunks_header[OF hdr_2x2(1)] by (rule hdr_2x2(2))
  show "png_stride png_2x2_split = 6" "unat (ihdr_h png_2x2_split) = 2"
    "unat (ihdr_w png_2x2_split) = 2"
    unfolding png_2x2_split_def png_of_chunks_header[OF hdr_2x2(1)]
    by (simp_all add: png_eval png_stride_def png_bpp_def png_bpc_def bpp_of_def)
qed

lemma raw_2x2_inflates: "inflates stored_env (14 # raw_2x2) raw_2x2" "length raw_2x2 = 14"
  using stored_inflates[of raw_2x2] by (simp_all add: raw_2x2_def)

text \<open>
  Claim C2, as amended.  For every well-formed PNG with at most 64 IDAT chunks
  (\<^verbatim>\<open>SPED_MAX_IDAT\<close>; the chunk scan drops the IDAT chunks after the 64th), height \<open>H\<close>
  and width \<open>W\<close>, and every scale \<open>s\<close> in \<open>{1,2,4}\<close> with \<open>W div s > 0\<close> and
  \<open>H div s > 0\<close>, \<^verbatim>\<open>sped_decode\<close> invokes the row callback exactly \<open>H div s\<close> times,
  with \<open>y\<close> arguments \<open>0, 1, ..., H div s - 1\<close> in strictly increasing order, each
  invocation carrying exactly \<open>W div s\<close> pixels as its width argument.  Well-formed is: the
  file is a header that passes the checks, a list of chunks with any CRCs, and IEND; a
  scanline and its filter byte fit \<^verbatim>\<open>int\<close>; the buffers can be allocated; and the
  concatenation of all the IDAT payloads of the file inflates to the \<open>H\<close> scanlines.  The
  call then returns 0 as soon as it has fuel for the iterations of its decode loop.
\<close>

theorem callback_sequence:
  assumes "png = png_of_chunks hdr cs rest"
    and "length hdr = 33" and "\<forall>c \<in> set cs. chunk_ok c"
    and "idat_payloads cs \<noteq> []" and "length (idat_payloads cs) \<le> SPED_MAX_IDAT"
    and "header_ok png scale" and "png_stride png + 1 < 2 ^ 31" and "alloc_ok e"
    and "inflates e (concat (idat_payloads cs)) ds"
    and "unat (ihdr_h png) * (png_stride png + 1) \<le> length ds"
    and "length (concat (idat_payloads cs)) + length ds + length (idat_payloads cs) \<le> fuel"
  shows "\<exists>calls. sped_decode fuel e png scale = Some (0, calls) \<and>
           length calls = unat (ihdr_h png) div nat scale \<and>
           map cb_y calls = map int [0..<unat (ihdr_h png) div nat scale] \<and>
           (\<forall>c \<in> set calls. cb_w c = int (unat (ihdr_w png) div nat scale) \<and>
                             length (cb_px c) = unat (ihdr_w png) div nat scale)"
proof -
  have h: "header_ok hdr scale"
    using assms(6) unfolding assms(1) png_of_chunks_header(1)[OF assms(2)] .
  have d: "decodable e png scale ds"
    unfolding assms(1)
    by (rule decodable_png_of_chunks[OF assms(2,3,4,5) h assms(8,9)])
  have ids: "idat (scanned e png) = idat_payloads cs"
    unfolding assms(1) idat_png_of_chunks[OF assms(2,3)] using assms(5) by simp
  have fuel: "length (concat (idat (scanned e png))) + length ds + length (idat (scanned e png))
              \<le> fuel"
    unfolding ids by (rule assms(11))
  show ?thesis by (rule calls_of_decodable[OF d assms(10) fuel])
qed

theorem callback_sequence_witness:
  "list_all chunk_ok chunks_2x2_split \<and> length (idat_payloads chunks_2x2_split) = 2 \<and>
   header_ok png_2x2_split 1 \<and> inflates stored_env (concat (idat_payloads chunks_2x2_split)) raw_2x2 \<and>
   (\<exists>calls. sped_decode 40 stored_env png_2x2_split 1 = Some (0, calls) \<and>
      map cb_y calls = [0, 1] \<and> map cb_w calls = [2, 2] \<and> map (\<lambda>c. length (cb_px c)) calls = [2, 2])"
proof -
  have a: "idat_payloads chunks_2x2_split \<noteq> []"
    "length (idat_payloads chunks_2x2_split) \<le> SPED_MAX_IDAT"
    "png_stride png_2x2_split + 1 < 2 ^ 31" "alloc_ok stored_env"
    "inflates stored_env (concat (idat_payloads chunks_2x2_split)) raw_2x2"
    "unat (ihdr_h png_2x2_split) * (png_stride png_2x2_split + 1) \<le> length raw_2x2"
    "length (concat (idat_payloads chunks_2x2_split)) + length raw_2x2 +
       length (idat_payloads chunks_2x2_split) \<le> 40"
    by (simp_all add: split_2x2_payloads split_2x2_fields raw_2x2_inflates SPED_MAX_IDAT_def
        stored_alloc_ok)
  obtain calls where c: "sped_decode 40 stored_env png_2x2_split 1 = Some (0, calls)"
      "length calls = unat (ihdr_h png_2x2_split) div nat 1"
      "map cb_y calls = map int [0..<unat (ihdr_h png_2x2_split) div nat 1]"
      "\<forall>c \<in> set calls. cb_w c = int (unat (ihdr_w png_2x2_split) div nat 1) \<and>
                        length (cb_px c) = unat (ihdr_w png_2x2_split) div nat 1"
    using callback_sequence[OF png_2x2_split_def hdr_2x2(1) split_2x2_ok a(1,2)
        split_2x2_fields(1) a(3-7)]
    by blast
  have y: "map cb_y calls = [0, 1]"
  proof -
    have "[0..<2::nat] = [0, 1]" by (simp add: numeral_2_eq_2)
    then show ?thesis using c(3) by (simp add: split_2x2_fields)
  qed
  have w: "map cb_w calls = map (\<lambda>c. 2) calls" "map (\<lambda>c. length (cb_px c)) calls = map (\<lambda>c. 2) calls"
    using c(4) by (simp_all add: split_2x2_fields)
  obtain c0 c1 where l: "calls = [c0, c1]"
    using y by (cases calls; cases "tl calls") auto
  have "list_all chunk_ok chunks_2x2_split" using split_2x2_ok by (simp add: list_all_iff)
  moreover have "length (idat_payloads chunks_2x2_split) = 2" by (simp add: split_2x2_payloads)
  ultimately show ?thesis
    using split_2x2_fields(1) a(5) c(1) y w by (simp add: l)
qed

text \<open>
  The claim as worded fails on a well-formed PNG with 65 IDAT chunks: the header passes
  the checks and all the IDAT payloads together inflate to the 32 scanlines, but the chunk
  scan keeps the first 64 chunks only, the decompressor runs out of input, and the call
  returns -1 after 31 callbacks.
\<close>

theorem callback_sequence_65_idat:
  "list_all chunk_ok chunks_65 \<and> length (idat_payloads chunks_65) = 65 \<and>
   header_ok png_65_idat 1 \<and> inflates stored_env (concat (idat_payloads chunks_65)) rows_1x32 \<and>
   unat (ihdr_h png_65_idat) * (png_stride png_65_idat + 1) \<le> length rows_1x32 \<and>
   unat (ihdr_h png_65_idat) div nat 1 = 32 \<and>
   sped_decode 200 stored_env png_65_idat 1
     = Some (- 1, expected_calls (image_of stored_env png_65_idat 1) (take 63 rows_1x32) 31) \<and>
   length (expected_calls (image_of stored_env png_65_idat 1) (take 63 rows_1x32) 31) = 31"
proof -
  have "list_all chunk_ok chunks_65" using chunks_65_ok by (simp add: list_all_iff)
  moreover have "length (idat_payloads chunks_65) = 65"
    by (simp add: payloads_65 rows_1x32_length)
  moreover have "inflates stored_env (concat (idat_payloads chunks_65)) rows_1x32"
    using stored_inflates[of rows_1x32] by (simp add: payloads_65 rows_1x32_length concat_map_singleton)
  moreover have "length (expected_calls (image_of stored_env png_65_idat 1) (take 63 rows_1x32) 31) = 31"
    by (simp add: expected_calls_def image_65_sel)
  ultimately show ?thesis
    using accepted_65(1) decode_65[of 200] by (simp add: stride_1x32 rows_1x32_length)
qed

subsection \<open>Splitting the IDAT payload\<close>

text \<open>
  Claim C9.  For every well-formed PNG, splitting its IDAT payload into two IDAT chunks at
  any byte offset (keeping the concatenated payload identical) yields a callback sequence
  byte-identical to decoding the same PNG with a single IDAT chunk, for every scale in
  \<open>{1,2,4}\<close>: the two calls return the same code and make the same callbacks with the same
  pixels, and both return 0.  The payload is \<open>a @ b\<close>, cut into \<open>a\<close> and \<open>b\<close>, either of
  which may be empty.
\<close>

theorem idat_split_invariant:
  assumes "png1 = png_of_chunks hdr (cs1 @ [(tag_IDAT, a @ b, crc)] @ cs2) rest"
    and "png2 = png_of_chunks hdr (cs1 @ [(tag_IDAT, a, crc1), (tag_IDAT, b, crc2)] @ cs2) rest"
    and "length hdr = 33"
    and "\<forall>c \<in> set (cs1 @ cs2). chunk_ok c \<and> fst c \<noteq> tag_IDAT"
    and "length (a @ b) < 2 ^ 32" and "length crc = 4" and "length crc1 = 4" and "length crc2 = 4"
    and "header_ok png1 scale" and "alloc_ok e" and "inflates e (a @ b) ds"
    and "length (a @ b) + length ds + 2 \<le> fuel"
  shows "sped_decode fuel e png2 scale = sped_decode fuel e png1 scale \<and>
         (\<exists>calls. sped_decode fuel e png1 scale = Some (0, calls))"
proof -
  let ?c1 = "cs1 @ (tag_IDAT, a @ b, crc) # cs2"
  let ?c2 = "cs1 @ (tag_IDAT, a, crc1) # (tag_IDAT, b, crc2) # cs2"
  note hdr = assms(3)
  have e1: "png1 = png_of_chunks hdr ?c1 rest" using assms(1) by simp
  have e2: "png2 = png_of_chunks hdr ?c2 rest" using assms(2) by simp
  have no: "\<forall>c \<in> set cs1. fst c \<noteq> tag_IDAT" "\<forall>c \<in> set cs2. fst c \<noteq> tag_IDAT"
    using assms(4) by auto
  have ok1: "\<forall>c \<in> set ?c1. chunk_ok c"
    using assms(4,5,6) by (auto simp: chunk_ok_def tags_distinct tags_distinct(3)[symmetric])
  have ok2: "\<forall>c \<in> set ?c2. chunk_ok c"
    using assms(4,5,7,8) by (auto simp: chunk_ok_def tags_distinct tags_distinct(3)[symmetric])
  have p1: "idat_payloads ?c1 = [a @ b]"
    by (simp add: idat_payloads_simps idat_payloads_none(1)[OF no(1)] idat_payloads_none(1)[OF no(2)])
  have p2: "idat_payloads ?c2 = [a, b]"
    by (simp add: idat_payloads_simps idat_payloads_none(1)[OF no(1)] idat_payloads_none(1)[OF no(2)])
  have h: "header_ok hdr scale"
    using assms(9) unfolding e1 png_of_chunks_header(1)[OF hdr] .
  have d1: "decodable e png1 scale ds"
    unfolding e1 using assms(11)
    by (intro decodable_png_of_chunks[OF hdr ok1 _ _ h assms(10)])
       (simp_all add: p1 SPED_MAX_IDAT_def)
  have d2: "decodable e png2 scale ds"
    unfolding e2 using assms(11)
    by (intro decodable_png_of_chunks[OF hdr ok2 _ _ h assms(10)])
       (simp_all add: p2 SPED_MAX_IDAT_def)
  have i1: "idat (scanned e png1) = [a @ b]"
    unfolding e1 idat_png_of_chunks[OF hdr ok1] p1 by (simp add: SPED_MAX_IDAT_def)
  have i2: "idat (scanned e png2) = [a, b]"
    unfolding e2 idat_png_of_chunks[OF hdr ok2] p2 by (simp add: SPED_MAX_IDAT_def)
  have f1: "length (concat (idat (scanned e png1))) + length ds + length (idat (scanned e png1))
            \<le> fuel"
    unfolding i1 using assms(12) by simp
  have f2: "length (concat (idat (scanned e png2))) + length ds + length (idat (scanned e png2))
            \<le> fuel"
    unfolding i2 using assms(12) by simp
  have same: "List.filter (\<lambda>c. fst c \<noteq> tag_IDAT) ?c2 = List.filter (\<lambda>c. fst c \<noteq> tag_IDAT) ?c1"
    by simp
  have im: "image_of e png2 scale = image_of e png1 scale"
    unfolding e1 e2 by (rule image_of_png_of_chunks[OF hdr ok2 ok1 same])
  have fields: "ihdr_h png2 = ihdr_h png1" "png_stride png2 = png_stride png1"
    unfolding e1 e2 png_of_chunks_header[OF hdr] by simp_all
  show ?thesis
    unfolding decode_calls[OF d1 f1] decode_calls[OF d2 f2] im fields by simp
qed

lemma single_2x2_header: "header_ok png_2x2_single 2"
proof -
  have "header_ok (mk_ihdr 2 2 8 2 0 0 0) 2"
    by (simp add: header_ok_def png_eval png_stride_def png_bpp_def png_bpc_def bpp_of_def)
  then show ?thesis
    unfolding png_2x2_single_def png_of_chunks_header[OF hdr_2x2(1)] .
qed

theorem idat_split_invariant_witness:
  "header_ok png_2x2_single 2 \<and> inflates stored_env (14 # raw_2x2) raw_2x2 \<and>
   sped_decode 40 stored_env png_2x2_split 2 = sped_decode 40 stored_env png_2x2_single 2 \<and>
   (\<exists>calls. sped_decode 40 stored_env png_2x2_single 2 = Some (0, calls))"
proof -
  let ?z = "14 # raw_2x2"
  let ?crc = "[0, 0, 0, 0] :: u8 list"
  have e1: "png_2x2_single
            = png_of_chunks (mk_ihdr 2 2 8 2 0 0 0)
                ([] @ [(tag_IDAT, take 5 ?z @ drop 5 ?z, ?crc)] @ []) ?crc"
    by (simp add: png_2x2_single_def)
  have e2: "png_2x2_split
            = png_of_chunks (mk_ihdr 2 2 8 2 0 0 0)
                ([] @ [(tag_IDAT, take 5 ?z, ?crc), (tag_IDAT, drop 5 ?z, ?crc)] @ []) ?crc"
    by (simp add: png_2x2_split_def chunks_2x2_split_def)
  have a: "\<forall>c \<in> set ([] @ [] :: chunk list). chunk_ok c \<and> fst c \<noteq> tag_IDAT"
    "length (take 5 ?z @ drop 5 ?z) < 2 ^ 32" "length ?crc = 4"
    "inflates stored_env (take 5 ?z @ drop 5 ?z) raw_2x2"
    "length (take 5 ?z @ drop 5 ?z) + length raw_2x2 + 2 \<le> 40"
    using raw_2x2_inflates by simp_all
  show ?thesis
    using idat_split_invariant[OF e1 e2 hdr_2x2(1) a(1,2,3,3,3) single_2x2_header stored_alloc_ok
        a(4,5)]
      single_2x2_header raw_2x2_inflates(1)
    by simp
qed

subsection \<open>The downscaled pixels\<close>

text \<open>
  Claim C4.  For every well-formed PNG and scale \<open>s\<close> in \<open>{2,4}\<close>, the output pixel at
  output coordinates \<open>(ox, oy)\<close> equals the RGB565 packing of the per-channel floor average
  of the \<open>(R,G,B)\<close> values of the \<open>s\<close> by \<open>s\<close> block of source pixels with rows
  \<open>oy * s .. oy * s + s - 1\<close> and columns \<open>ox * s .. ox * s + s - 1\<close>.  After \<open>k\<close> input
  rows exactly the first \<open>k div s\<close> output rows have been emitted: a row is emitted
  exactly after an input row \<open>r\<close> with \<open>r mod s = s - 1\<close>, and the trailing rows and
  columns outside the \<open>H div s\<close> by \<open>W div s\<close> blocks contribute to no emitted pixel.
\<close>

theorem downscale_block_average:
  assumes "decodable e png scale ds"
    and "scale = 2 \<or> scale = 4"
    and "unat (ihdr_h png) * (png_stride png + 1) \<le> length ds"
    and "length (concat (idat (scanned e png))) + length ds + length (idat (scanned e png)) \<le> fuel"
  shows "\<exists>cs. sped_decode fuel e png scale = Some (0, cs) \<and>
           length cs = unat (ihdr_h png) div nat scale \<and>
           (\<forall>oy < unat (ihdr_h png) div nat scale. \<forall>ox < unat (ihdr_w png) div nat scale.
              cb_px (cs ! oy) ! ox = pack565 (block_avg (image_of e png scale) ds oy ox)) \<and>
           (\<forall>k \<le> unat (ihdr_h png).
              calls (feed (image_of e png scale) (take (k * (png_stride png + 1)) ds)
                       (init_state png scale)) = take (k div nat scale) cs)"
proof -
  let ?im = "image_of e png scale"
  let ?H = "unat (ihdr_h png)"
  let ?cs = "expected_calls ?im ds ?H"
  have h: "header_ok png scale" using assms(1) by (simp add: decodable_def)
  have sel: "img_scale ?im = nat scale" "img_out_w ?im = unat (ihdr_w png) div nat scale"
    "img_stride ?im = png_stride png"
    by (simp_all add: image_of_def)
  have sc: "nat scale \<noteq> 1" "0 < nat scale" using assms(2) by auto
  have cs: "?cs = map (scaled_row ?im ds) [0..<?H div nat scale]"
    using sc by (simp add: expected_calls_def sel)
  have "length ?cs = ?H div nat scale" by (simp add: cs)
  moreover have "\<forall>oy < ?H div nat scale. \<forall>ox < unat (ihdr_w png) div nat scale.
              cb_px (?cs ! oy) ! ox = pack565 (block_avg ?im ds oy ox)"
    by (simp add: cs scaled_row_def sel)
  moreover have "\<forall>k \<le> ?H.
              calls (feed ?im (take (k * (png_stride png + 1)) ds) (init_state png scale))
              = take (k div nat scale) ?cs"
  proof (intro allI impI)
    fix k assume k: "k \<le> ?H"
    have stride: "0 < img_stride ?im" using header_dims(1)[OF h] by (simp add: sel)
    have hh: "sint (img_h ?im) = int ?H"
      using header_dims(4)[OF h] by (simp add: image_of_def)
    have kh: "int k \<le> sint (img_h ?im)"
      unfolding hh using k by (simp only: of_nat_le_iff)
    have "k * (png_stride png + 1) \<le> ?H * (png_stride png + 1)"
      using k by (rule mult_le_mono1)
    then have kl: "k * (img_stride ?im + 1) \<le> length ds"
      using assms(3) by (simp add: sel)
    have "feed ?im (take (k * (png_stride png + 1)) ds) (init_state png scale)
          = state_after ?im ds k"
      unfolding init_state_after[OF h, of e ds]
      using feed_rows[OF stride header_scale[OF h] kh kl] by (simp add: sel)
    moreover have "k div nat scale \<le> ?H div nat scale" using k by (rule div_le_mono)
    ultimately show "calls (feed ?im (take (k * (png_stride png + 1)) ds) (init_state png scale))
              = take (k div nat scale) ?cs"
      using sc by (simp add: state_after_def expected_calls_def sel take_map min_absorb2)
  qed
  ultimately show ?thesis
    using decode_full[OF assms(1,3,4)] by blast
qed

theorem downscale_block_average_witness:
  "decodable stored_env (png_2x2_rgb (14 # raw_2x2)) 2 raw_2x2 \<and>
   unat (ihdr_h (png_2x2_rgb (14 # raw_2x2))) * (png_stride (png_2x2_rgb (14 # raw_2x2)) + 1)
     \<le> length raw_2x2 \<and>
   (\<exists>cs. sped_decode 40 stored_env (png_2x2_rgb (14 # raw_2x2)) 2 = Some (0, cs) \<and>
         length cs = 1 \<and>
         cb_px (cs ! 0) ! 0
           = pack565 (block_avg (image_of stored_env (png_2x2_rgb (14 # raw_2x2)) 2) raw_2x2 0 0) \<and>
         calls (feed (image_of stored_env (png_2x2_rgb (14 # raw_2x2)) 2) (take 7 raw_2x2)
                  (init_state (png_2x2_rgb (14 # raw_2x2)) 2)) = [])"
proof -
  let ?P = "png_2x2_rgb (14 # raw_2x2)"
  obtain cs where cs: "sped_decode 40 stored_env ?P 2 = Some (0, cs)"
      "length cs = unat (ihdr_h ?P) div nat 2"
      "\<forall>oy < unat (ihdr_h ?P) div nat 2. \<forall>ox < unat (ihdr_w ?P) div nat 2.
          cb_px (cs ! oy) ! ox = pack565 (block_avg (image_of stored_env ?P 2) raw_2x2 oy ox)"
      "\<forall>k \<le> unat (ihdr_h ?P).
          calls (feed (image_of stored_env ?P 2) (take (k * (png_stride ?P + 1)) raw_2x2)
                   (init_state ?P 2)) = take (k div nat 2) cs"
    using downscale_block_average[OF decodable_2x2 _ full_2x2 fuel_2x2] by blast
  have l: "length cs = 1" using cs(2) by (simp add: stride_2x2)
  have "cb_px (cs ! 0) ! 0 = pack565 (block_avg (image_of stored_env ?P 2) raw_2x2 0 0)"
    using cs(3) by (simp add: stride_2x2)
  moreover have "calls (feed (image_of stored_env ?P 2) (take 7 raw_2x2) (init_state ?P 2)) = []"
    using cs(4)[rule_format, of 1] by (simp add: stride_2x2)
  ultimately show ?thesis
    using cs(1) l decodable_2x2 full_2x2[of "14 # raw_2x2"] by (intro conjI exI[of _ cs])
qed

subsection \<open>The accumulator never wraps\<close>

text \<open>
  Claim C8.  During any decode with scale \<open>s\<close> in \<open>{2,4}\<close>, every lane of the downscale
  accumulator holds at every point a value of at most \<open>s * s * 255 \<le> 4080\<close>, so the
  16-bit entries never wrap.  The stream \<open>ds\<close> is any sequence of bytes the decompressor
  may have produced so far: the bound holds between the steps of the inner loop, and,
  within the accumulation loop of row \<open>k\<close>, after any number \<open>m\<close> of columns, where the
  lane holds the exact sum of the channel values added to it.
\<close>

theorem accumulator_never_wraps:
  assumes "header_ok png scale" and "scale = 2 \<or> scale = 4"
  shows "(\<forall>lane \<in> set (acc (feed (image_of e png scale) ds (init_state png scale))).
            unat lane \<le> nat scale * nat scale * 255) \<and>
         nat scale * nat scale * 255 \<le> 4080 \<and>
         (\<forall>k m i. int k < sint (ihdr_h png) \<and> Suc k * (png_stride png + 1) \<le> length ds \<and>
                  m \<le> unat (ihdr_w png) div nat scale * nat scale \<and>
                  i < unat (ihdr_w png) div nat scale * 3 \<longrightarrow>
            unat (fold (acc_step (image_of e png scale) (recon (image_of e png scale) ds (Suc k)))
                    [0..<m]
                    (acc (feed (image_of e png scale) (take (k * (png_stride png + 1)) ds)
                            (init_state png scale))) ! i)
              = part_sum (image_of e png scale) ds k i +
                row_sum (image_of e png scale) (recon (image_of e png scale) ds (Suc k)) m i \<and>
            part_sum (image_of e png scale) ds k i +
              row_sum (image_of e png scale) (recon (image_of e png scale) ds (Suc k)) m i
              \<le> nat scale * nat scale * 255)"
proof -
  let ?im = "image_of e png scale"
  let ?s0 = "init_state png scale"
  let ?ow = "unat (ihdr_w png) div nat scale"
  note h = assms(1)
  have sel: "img_scale ?im = nat scale" "img_out_w ?im = ?ow" "img_stride ?im = png_stride png"
    "img_h ?im = ihdr_h png"
    by (simp_all add: image_of_def)
  have sc: "0 < img_scale ?im" "img_scale ?im \<noteq> 1" "img_scale ?im \<le> 16"
    using assms(2) by (auto simp: sel)
  have stride: "0 < img_stride ?im" using header_dims(1)[OF h] by (simp add: sel)
  have hh: "sint (img_h ?im) = int (unat (ihdr_h png))"
    using header_dims(4)[OF h] by (simp add: sel)
  have s0: "?s0 = state_after ?im ds 0" by (rule init_state_after[OF h])
  have bound: "part_sum ?im ds k i + row_sum ?im c m i \<le> nat scale * nat scale * 255" for k i c m
    using lane_le[OF sc(1), of ds k i c m] by (simp add: sel)
  have small: "part_sum ?im ds k i + row_sum ?im c m i < 65536" for k i c m
    using lane_le[OF sc(1), of ds k i c m] scale_sq_u16[OF sc(3)] by linarith
  have lanes: "acc (state_after ?im ds k)
               = map (\<lambda>i. word_of_nat (part_sum ?im ds k i)) [0..<?ow * 3]" for k
    using sc(2) by (simp add: state_after_def sel)
  have between: "\<forall>lane \<in> set (acc (feed ?im ds ?s0)). unat lane \<le> nat scale * nat scale * 255"
  proof
    fix lane assume l: "lane \<in> set (acc (feed ?im ds ?s0))"
    define k where "k = min (unat (ihdr_h png)) (length ds div (img_stride ?im + 1))"
    have "acc (feed ?im ds ?s0) = acc (state_after ?im ds k)"
      unfolding s0 using feed_calls[OF stride header_scale[OF h] hh k_def] by simp
    then obtain i where i: "lane = word_of_nat (part_sum ?im ds k i)"
      using l unfolding lanes by auto
    have "part_sum ?im ds k i < 65536"
      using small[of k i "[]" 0] by (simp add: row_sum_def)
    then have "unat lane = part_sum ?im ds k i"
      unfolding i by (rule unat_of_nat_u16)
    then show "unat lane \<le> nat scale * nat scale * 255"
      using bound[of k i "[]" 0] by (simp add: row_sum_def)
  qed
  have lim: "nat scale * nat scale * 255 \<le> 4080" using assms(2) by auto
  have within: "unat (fold (acc_step ?im (recon ?im ds (Suc k))) [0..<m]
                    (acc (feed ?im (take (k * (png_stride png + 1)) ds) ?s0)) ! i)
              = part_sum ?im ds k i + row_sum ?im (recon ?im ds (Suc k)) m i"
    if k: "int k < sint (ihdr_h png)" "Suc k * (png_stride png + 1) \<le> length ds"
      and m: "m \<le> ?ow * nat scale" and i: "i < ?ow * 3" for k m i
  proof -
    define c where "c = recon ?im ds (Suc k)"
    have kh: "int k \<le> sint (img_h ?im)" using k(1) by (simp add: sel)
    have kl: "k * (img_stride ?im + 1) \<le> length ds" using k(2) by (simp add: sel)
    have st: "feed ?im (take (k * (png_stride png + 1)) ds) ?s0 = state_after ?im ds k"
      unfolding s0 using feed_rows[OF stride header_scale[OF h] kh kl] by (simp add: sel)
    have len: "length (acc (state_after ?im ds k)) = img_out_w ?im * 3"
      by (simp add: lanes sel)
    have m': "m \<le> img_out_w ?im * img_scale ?im" using m by (simp add: sel)
    have i': "i < length (acc (state_after ?im ds k))" using i by (simp add: lanes)
    have "fold (acc_step ?im c) [0..<m] (acc (state_after ?im ds k)) ! i
          = acc (state_after ?im ds k) ! i + word_of_nat (row_sum ?im c m i)"
      using acc_fold_nth[OF sc(1) len m' i'] by simp
    also have "\<dots> = word_of_nat (part_sum ?im ds k i + row_sum ?im c m i)"
      using i by (simp add: lanes)
    finally have "unat (fold (acc_step ?im c) [0..<m] (acc (state_after ?im ds k)) ! i)
                  = part_sum ?im ds k i + row_sum ?im c m i"
      using unat_of_nat_u16[OF small[of k i c m]] by simp
    then show ?thesis unfolding st c_def .
  qed
  show ?thesis
    using between lim within bound by blast
qed

theorem accumulator_never_wraps_witness:
  "header_ok (png_2x2_rgb (14 # raw_2x2)) 2 \<and>
   list_all (\<lambda>lane. unat lane \<le> 1020)
     (acc (feed (image_of stored_env (png_2x2_rgb (14 # raw_2x2)) 2) raw_2x2
             (init_state (png_2x2_rgb (14 # raw_2x2)) 2))) \<and>
   (1020 :: nat) \<le> 4080 \<and>
   int 0 < sint (ihdr_h (png_2x2_rgb (14 # raw_2x2))) \<and>
   Suc 0 * (png_stride (png_2x2_rgb (14 # raw_2x2)) + 1) \<le> length raw_2x2 \<and>
   unat (fold (acc_step (image_of stored_env (png_2x2_rgb (14 # raw_2x2)) 2)
                 (recon (image_of stored_env (png_2x2_rgb (14 # raw_2x2)) 2) raw_2x2 (Suc 0)))
           [0..<2]
           (acc (feed (image_of stored_env (png_2x2_rgb (14 # raw_2x2)) 2)
                   (take (0 * (png_stride (png_2x2_rgb (14 # raw_2x2)) + 1)) raw_2x2)
                   (init_state (png_2x2_rgb (14 # raw_2x2)) 2))) ! 0)
     \<le> 1020"
proof -
  let ?P = "png_2x2_rgb (14 # raw_2x2)"
  note t = accumulator_never_wraps[OF header_2x2[of "14 # raw_2x2"] disjI1[OF refl],
      where e = stored_env and ds = raw_2x2]
  have a: "list_all (\<lambda>lane. unat lane \<le> 1020)
             (acc (feed (image_of stored_env ?P 2) raw_2x2 (init_state ?P 2)))"
    using t by (simp add: list_all_iff)
  have h: "int 0 < sint (ihdr_h ?P)" by (simp add: fields_2x2)
  have l: "Suc 0 * (png_stride ?P + 1) \<le> length raw_2x2"
    by (simp add: stride_2x2 raw_2x2_def)
  have "unat (fold (acc_step (image_of stored_env ?P 2) (recon (image_of stored_env ?P 2) raw_2x2 (Suc 0)))
           [0..<2]
           (acc (feed (image_of stored_env ?P 2) (take (0 * (png_stride ?P + 1)) raw_2x2)
                   (init_state ?P 2))) ! 0) \<le> 1020"
    using t[THEN conjunct2, THEN conjunct2, rule_format, of 0 2 0] h l
    by (simp add: stride_2x2 del: recon.simps)
  then show ?thesis using a h l header_2x2 by simp
qed

subsection \<open>Filter reconstruction\<close>

lemma unfilter_step_predictor:
  "i < length l \<Longrightarrow> unfilter_step f bpp pr i l =
     l[i := l ! i + predictor f (if i \<ge> bpp then l ! (i - bpp) else 0) (pr ! i)
                                (if i \<ge> bpp then pr ! (i - bpp) else 0)]"
  by (simp add: unfilter_step_def predictor_def Let_def)

lemma length_png_filter [simp]: "length (png_filter f bpp pr c) = length c"
  by (simp add: png_filter_def)

lemma prefix_update_step:
  assumes "k < length c" "length F = length c"
  shows "(take k c @ drop k F)[k := c ! k] = take (Suc k) c @ drop (Suc k) F"
proof -
  have "drop k F = F ! k # drop (Suc k) F"
    using assms by (simp add: Cons_nth_drop_Suc)
  then show ?thesis
    using assms by (simp add: list_update_append take_Suc_conv_app_nth)
qed

text \<open>After \<open>k\<close> iterations the first \<open>k\<close> bytes are reconstructed, the rest untouched.\<close>

lemma unfilter_prefix:
  assumes "0 < bpp" "k \<le> length c"
  shows "fold (unfilter_step f bpp pr) [0..<k] (png_filter f bpp pr c)
         = take k c @ drop k (png_filter f bpp pr c)"
  using assms(2)
proof (induction k)
  case 0
  show ?case by simp
next
  case (Suc k)
  let ?F = "png_filter f bpp pr c"
  let ?L = "take k c @ drop k ?F"
  have len: "length ?F = length c" by simp
  have k: "k < length c" using Suc.prems by simp
  have Lk: "?L ! k = ?F ! k" using k len by (simp add: nth_append)
  have La: "k \<ge> bpp \<Longrightarrow> ?L ! (k - bpp) = c ! (k - bpp)"
    using k assms(1) by (simp add: nth_append)
  have Fk: "?F ! k = c ! k - predictor f (if k \<ge> bpp then c ! (k - bpp) else 0) (pr ! k)
                                   (if k \<ge> bpp then pr ! (k - bpp) else 0)"
    using k by (simp add: png_filter_def)
  have "fold (unfilter_step f bpp pr) [0..<Suc k] ?F = unfilter_step f bpp pr k ?L"
    using Suc by simp
  also have "\<dots> = ?L[k := c ! k]"
    using k len La by (simp add: unfilter_step_predictor Lk Fk)
  also have "\<dots> = take (Suc k) c @ drop (Suc k) ?F"
    using k len by (rule prefix_update_step)
  finally show ?case .
qed

text \<open>
  Claim C6.  For every filter type \<open>f\<close> in \<open>{0,1,2,3,4}\<close>, every \<open>bpp \<ge> 1\<close> and every pair
  of scanlines \<open>cur\<close>, \<open>prev\<close> of equal length, applying the PNG forward filter \<open>f\<close> to
  \<open>cur\<close> (with context \<open>prev\<close> and \<open>bpp\<close>) and then the decoder's inverse filter loop to
  the result yields exactly the original bytes of \<open>cur\<close>.
\<close>

theorem filter_roundtrip:
  assumes "f \<in> {0, 1, 2, 3, 4}" "1 \<le> bpp" "length pr = length c"
  shows "unfilter f bpp (length c) pr (png_filter f bpp pr c) = c"
  using assms(2) by (simp add: unfilter_def unfilter_prefix)

theorem filter_roundtrip_witness:
  "(4 :: u8) \<in> {0, 1, 2, 3, 4} \<and> (1 :: nat) \<le> 2 \<and>
   length [10, 20, 30, 40 :: u8] = length [250, 3, 7, 200 :: u8] \<and>
   png_filter 4 2 [10, 20, 30, 40] [250, 3, 7, 200] = [240, 239, 13, 180] \<and>
   unfilter 4 2 (length [250, 3, 7, 200 :: u8]) [10, 20, 30, 40]
     (png_filter 4 2 [10, 20, 30, 40] [250, 3, 7, 200]) = [250, 3, 7, 200]"
  using filter_roundtrip [of 4 2 "[10, 20, 30, 40]" "[250, 3, 7, 200]"]
  by (simp add: png_filter_def predictor_def paeth_def upt_rec [of _ "numeral n" for n])

subsection \<open>Paeth predictor\<close>

text \<open>
  Claim C7.  For all bytes \<open>a\<close> and \<open>b\<close> the Paeth predictor satisfies
  \<open>Paeth(a,a,a) = a\<close>, \<open>Paeth(a,b,b) = a\<close> and \<open>Paeth(a,b,a) = b\<close>.
\<close>

theorem paeth_unit_properties:
  "paeth a a a = a \<and> paeth a b b = a \<and> paeth a b a = b"
  by (auto simp add: paeth_def Let_def dest: word_uint_eqI)

end
